theory Spec2Isabelle
  imports Main
begin

section \<open>Parsed YAML values and the Python operations the validator applies to them\<close>

text \<open>
  \<^verbatim>\<open>scripts/validate.py\<close> validates what \<^verbatim>\<open>yaml.safe_load\<close> returns: a value of
  no fixed shape. The model covers null, booleans, integers, strings, sequences and
  mappings; floats, binary data, timestamps and sets are not modelled. A string is a list
  of 8-bit characters (the code points below 256), where the class \<^verbatim>\<open>\d\<close> of a
  \<^verbatim>\<open>str\<close> pattern is exactly the ASCII digits. A mapping is the list of its items
  in insertion order.
\<close>

datatype pyval =
    PNone
  | PBool bool
  | PInt int
  | PStr string
  | PList "pyval list"
  | PDict "(pyval \<times> pyval) list"

text \<open>The exceptions a Python operation raises on a value of the wrong type.\<close>

datatype exn = TypeError | AttributeError | KeyError

text \<open>\<^verbatim>\<open>not v\<close> is \<open>\<not> truthy v\<close>.\<close>

fun truthy :: "pyval \<Rightarrow> bool" where
  "truthy PNone = False"
| "truthy (PBool b) = b"
| "truthy (PInt i) = (i \<noteq> 0)"
| "truthy (PStr s) = (s \<noteq> [])"
| "truthy (PList xs) = (xs \<noteq> [])"
| "truthy (PDict kvs) = (kvs \<noteq> [])"

fun starts_with :: "string \<Rightarrow> string \<Rightarrow> bool" where
  "starts_with [] t = True"
| "starts_with (c # s) [] = False"
| "starts_with (c # s) (d # t) = (c = d \<and> starts_with s t)"

fun substring :: "string \<Rightarrow> string \<Rightarrow> bool" where
  "substring s [] = (s = [])"
| "substring s (d # t) = (starts_with s (d # t) \<or> substring s t)"

text \<open>
  \<^verbatim>\<open>key in v\<close> for a string \<open>key\<close>: a key of a mapping, an element of a sequence, a
  substring of a string; the other values are not containers.
\<close>

fun py_in :: "string \<Rightarrow> pyval \<Rightarrow> exn + bool" where
  "py_in key (PDict kvs) = Inr (PStr key \<in> set (map fst kvs))"
| "py_in key (PList xs) = Inr (PStr key \<in> set xs)"
| "py_in key (PStr s) = Inr (substring key s)"
| "py_in key PNone = Inl TypeError"
| "py_in key (PBool b) = Inl TypeError"
| "py_in key (PInt i) = Inl TypeError"

text \<open>\<^verbatim>\<open>v[key]\<close> for a string \<open>key\<close>.\<close>

fun py_getitem :: "pyval \<Rightarrow> string \<Rightarrow> exn + pyval" where
  "py_getitem (PDict kvs) key =
     (case map_of kvs (PStr key) of None \<Rightarrow> Inl KeyError | Some x \<Rightarrow> Inr x)"
| "py_getitem v key = Inl TypeError"

text \<open>\<^verbatim>\<open>v.get(key)\<close>: only a mapping has the method; an absent key gives \<^verbatim>\<open>None\<close>.\<close>

fun py_get :: "pyval \<Rightarrow> string \<Rightarrow> exn + pyval" where
  "py_get (PDict kvs) key =
     Inr (case map_of kvs (PStr key) of None \<Rightarrow> PNone | Some x \<Rightarrow> x)"
| "py_get v key = Inl AttributeError"

text \<open>\<^verbatim>\<open>v.keys()\<close> and \<^verbatim>\<open>v.items()\<close>.\<close>

fun py_keys :: "pyval \<Rightarrow> exn + pyval list" where
  "py_keys (PDict kvs) = Inr (map fst kvs)"
| "py_keys v = Inl AttributeError"

fun py_items :: "pyval \<Rightarrow> exn + (pyval \<times> pyval) list" where
  "py_items (PDict kvs) = Inr kvs"
| "py_items v = Inl AttributeError"

text \<open>
  \<^verbatim>\<open>for x in v\<close>: the elements of a sequence, the keys of a mapping, the characters
  of a string.
\<close>

fun py_iter :: "pyval \<Rightarrow> exn + pyval list" where
  "py_iter (PList xs) = Inr xs"
| "py_iter (PDict kvs) = Inr (map fst kvs)"
| "py_iter (PStr s) = Inr (map (\<lambda>c. PStr [c]) s)"
| "py_iter v = Inl TypeError"

text \<open>
  \<^verbatim>\<open>v in S\<close> for a set \<open>S\<close> of strings: \<open>v\<close> is hashed first, which a sequence
  or a mapping refuses; a hashable value that is not a string equals no member.
\<close>

fun in_str_set :: "pyval \<Rightarrow> string list \<Rightarrow> exn + bool" where
  "in_str_set (PStr s) S = Inr (s \<in> set S)"
| "in_str_set (PList xs) S = Inl TypeError"
| "in_str_set (PDict kvs) S = Inl TypeError"
| "in_str_set v S = Inr False"

text \<open>\<^verbatim>\<open>str(n)\<close> for an integer.\<close>

fun str_nat :: "nat \<Rightarrow> string" where
  "str_nat n =
     (if n < 10 then [''0123456789'' ! n] else str_nat (n div 10) @ [''0123456789'' ! (n mod 10)])"

definition str_int :: "int \<Rightarrow> string" where
  "str_int i = (if i < 0 then CHR ''-'' # str_nat (nat (- i)) else str_nat (nat i))"

text \<open>
  \<^verbatim>\<open>f"{v}"\<close>. The validator formats a value only after \<^verbatim>\<open>v in S\<close> has hashed it
  or \<^verbatim>\<open>not v\<close> has held, so a non-empty sequence or mapping is never formatted and
  has no equation here.
\<close>

fun py_str :: "pyval \<Rightarrow> string" where
  "py_str PNone = ''None''"
| "py_str (PBool b) = (if b then ''True'' else ''False'')"
| "py_str (PInt i) = str_int i"
| "py_str (PStr s) = s"
| "py_str (PList []) = ''[]''"
| "py_str (PDict []) = ''{}''"

text \<open>
  \<^verbatim>\<open>a <= b\<close> on strings compares code points at the first difference, and lengths
  when one is a prefix of the other.
\<close>

fun str_less :: "string \<Rightarrow> string \<Rightarrow> bool" where
  "str_less [] [] = False"
| "str_less [] (d # t) = True"
| "str_less (c # s) [] = False"
| "str_less (c # s) (d # t) =
     (if c = d then str_less s t else (of_char c :: nat) < of_char d)"

definition str_le :: "string \<Rightarrow> string \<Rightarrow> bool" where
  "str_le s t = (s = t \<or> str_less s t)"

text \<open>
  The validator compares version keys only after \<^verbatim>\<open>re.match\<close> has accepted both as
  strings; any other pair is given as the \<^verbatim>\<open>TypeError\<close> of an unordered pair.
\<close>

fun py_le :: "pyval \<Rightarrow> pyval \<Rightarrow> exn + bool" where
  "py_le (PStr s) (PStr t) = Inr (str_le s t)"
| "py_le v w = Inl TypeError"

section \<open>The validator\<close>

definition SEVERITY_VALUES :: "string list" where
  "SEVERITY_VALUES = [''green'', ''yellow'', ''red'']"

definition MATCHER_TYPES :: "string list" where
  "MATCHER_TYPES = [''default'', ''country'', ''location_hash'']"

definition VALID_COUNTRIES :: "string list" where
  "VALID_COUNTRIES =
     [''US'', ''GB'', ''DE'', ''FR'', ''IT'', ''ES'', ''NL'', ''BE'', ''AT'', ''CH'',
      ''PL'', ''CZ'', ''SK'', ''HU'', ''RO'', ''BG'', ''HR'', ''SI'', ''SE'', ''NO'',
      ''DK'', ''FI'', ''IE'', ''PT'', ''GR'', ''LU'', ''EE'', ''LV'', ''LT'', ''CY'',
      ''MT'', ''IS'']"

subsection \<open>The format predicates\<close>

definition digit :: "char \<Rightarrow> bool" where
  "digit c = (c \<in> set ''0123456789'')"

definition hex_lower :: "char \<Rightarrow> bool" where
  "hex_lower c = (c \<in> set ''abcdef0123456789'')"

text \<open>
  \<^verbatim>\<open>$\<close> without \<^verbatim>\<open>re.MULTILINE\<close>: the end of the string, or the position before a
  newline that ends the string.
\<close>

definition at_end :: "string \<Rightarrow> bool" where
  "at_end s = (s = [] \<or> s = [CHR 0x0A])"

text \<open>
  \<^verbatim>\<open>\d+\<close> followed by a character that is no digit: the longest run of digits, which
  must not be empty. The result is the rest of the string, \<open>None\<close> when there is no
  digit.
\<close>

definition digits1 :: "string \<Rightarrow> string option" where
  "digits1 s = (if takeWhile digit s = [] then None else Some (dropWhile digit s))"

definition dot :: "string \<Rightarrow> string option" where
  "dot s = (case s of [] \<Rightarrow> None | c # r \<Rightarrow> if c = CHR ''.'' then Some r else None)"

text \<open>\<^verbatim>\<open>re.match(r'^\d+\.\d+\.\d+$', s) is not None\<close> for a string \<open>s\<close>.\<close>

definition semver_match :: "string \<Rightarrow> bool" where
  "semver_match s =
     (case Option.bind (Option.bind (Option.bind (Option.bind (digits1 s) dot) digits1) dot) digits1 of
        None \<Rightarrow> False
      | Some r \<Rightarrow> at_end r)"

text \<open>\<^verbatim>\<open>re.match(r'^[a-f0-9]{64}$', s) is not None\<close> for a string \<open>s\<close>.\<close>

definition hash_match :: "string \<Rightarrow> bool" where
  "hash_match s = (64 \<le> length s \<and> list_all hex_lower (take 64 s) \<and> at_end (drop 64 s))"

text \<open>\<^verbatim>\<open>re.match\<close> raises \<^verbatim>\<open>TypeError\<close> on a value that is not a string.\<close>

fun validate_semver :: "pyval \<Rightarrow> exn + bool" where
  "validate_semver (PStr s) = Inr (semver_match s)"
| "validate_semver v = Inl TypeError"

fun validate_location_hash :: "pyval \<Rightarrow> exn + bool" where
  "validate_location_hash (PStr s) = Inr (hash_match s)"
| "validate_location_hash v = Inl TypeError"

text \<open>\<^verbatim>\<open>timestamp.replace('Z', '+00:00')\<close> rewrites every \<^verbatim>\<open>Z\<close> of the string.\<close>

definition replace_Z :: "string \<Rightarrow> string" where
  "replace_Z s = concat (map (\<lambda>c. if c = CHR ''Z'' then ''+00:00'' else [c]) s)"

text \<open>
  \<^verbatim>\<open>datetime.fromisoformat\<close> is library code: the model takes its verdict on a string
  as the parameter \<open>fromisoformat\<close> (\<open>True\<close> when it returns, \<open>False\<close> when it raises
  \<^verbatim>\<open>ValueError\<close>, the one exception \<^verbatim>\<open>validate_iso8601\<close> catches). A value without
  a \<^verbatim>\<open>replace\<close> method raises \<^verbatim>\<open>AttributeError\<close>, which is not caught.
\<close>

fun validate_iso8601 :: "(string \<Rightarrow> bool) \<Rightarrow> pyval \<Rightarrow> exn + bool" where
  "validate_iso8601 fromisoformat (PStr s) = Inr (fromisoformat (replace_Z s))"
| "validate_iso8601 fromisoformat v = Inl AttributeError"

subsection \<open>The checks of \<^verbatim>\<open>validate_manifest\<close>\<close>

text \<open>
  A result is \<open>Inr\<close> of the value computed, or \<open>Inl\<close> of the exception that left the
  function; \<open>and_then\<close> runs the next statement on a value and passes an exception on.
\<close>

definition and_then :: "exn + 'a \<Rightarrow> ('a \<Rightarrow> exn + 'b) \<Rightarrow> exn + 'b" where
  "and_then m f = (case m of Inl e \<Rightarrow> Inl e | Inr x \<Rightarrow> f x)"

text \<open>\<open>quoted s\<close> is \<open>s\<close> between two apostrophes, as the messages quote a value.\<close>

definition quoted :: "string \<Rightarrow> string" where
  "quoted s = CHR 0x27 # s @ [CHR 0x27]"

text \<open>
  Lines 105 to 108: the check of a \<^verbatim>\<open>country\<close> matcher. \<^verbatim>\<open>not country or ...\<close>
  tests membership only for a truthy value.
\<close>

definition check_country :: "pyval \<Rightarrow> pyval \<Rightarrow> string list \<Rightarrow> exn + string list" where
  "check_country version matcher errors =
     and_then (py_get matcher ''matcher_value'') (\<lambda>country.
     and_then (if \<not> truthy country then Inr True
               else and_then (in_str_set country VALID_COUNTRIES) (\<lambda>known. Inr (\<not> known))) (\<lambda>bad.
     Inr (if bad
          then errors @ [''Version '' @ py_str version @ '': invalid country code '' @ quoted (py_str country)]
          else errors)))"

text \<open>Lines 110 to 113: the check of a \<^verbatim>\<open>location_hash\<close> matcher.\<close>

definition check_location_hash :: "pyval \<Rightarrow> pyval \<Rightarrow> string list \<Rightarrow> exn + string list" where
  "check_location_hash version matcher errors =
     and_then (py_get matcher ''matcher_value'') (\<lambda>hash_val.
     and_then (if \<not> truthy hash_val then Inr True
               else and_then (validate_location_hash hash_val) (\<lambda>ok. Inr (\<not> ok))) (\<lambda>bad.
     Inr (if bad
          then errors @ [''Version '' @ py_str version @ '': invalid location hash format'']
          else errors)))"

text \<open>Lines 115 to 117: the check of the severity.\<close>

definition check_severity :: "pyval \<Rightarrow> pyval \<Rightarrow> string list \<Rightarrow> exn + string list" where
  "check_severity version matcher errors =
     and_then (py_get matcher ''severity'') (\<lambda>severity.
     and_then (in_str_set severity SEVERITY_VALUES) (\<lambda>known.
     Inr (if \<not> known
          then errors @ [''Version '' @ py_str version @ '': invalid severity '' @ quoted (py_str severity)]
          else errors)))"

text \<open>
  Lines 96 to 117: the body of the loop over the matchers of one version, on the state
  (\<open>errors\<close>, \<open>has_default\<close>). An unknown matcher type ends the pass at \<^verbatim>\<open>continue\<close>.
\<close>

definition check_matcher ::
  "pyval \<Rightarrow> pyval \<Rightarrow> string list \<times> bool \<Rightarrow> exn + string list \<times> bool" where
  "check_matcher version matcher st =
     (case st of (errors, has_default) \<Rightarrow>
      and_then (py_get matcher ''matcher_type'') (\<lambda>matcher_type.
      and_then (in_str_set matcher_type MATCHER_TYPES) (\<lambda>known.
      if \<not> known
      then Inr (errors @ [''Version '' @ py_str version @ '': invalid matcher_type '' @ quoted (py_str matcher_type)],
                has_default)
      else
        and_then (if matcher_type = PStr ''country''
                  then check_country version matcher errors else Inr errors) (\<lambda>errors.
        and_then (if matcher_type = PStr ''location_hash''
                  then check_location_hash version matcher errors else Inr errors) (\<lambda>errors.
        and_then (check_severity version matcher errors) (\<lambda>errors.
        Inr (errors, if matcher_type = PStr ''default'' then True else has_default)))))))"

fun matchers_loop ::
  "pyval \<Rightarrow> pyval list \<Rightarrow> string list \<times> bool \<Rightarrow> exn + string list \<times> bool" where
  "matchers_loop version [] st = Inr st"
| "matchers_loop version (matcher # rest) st =
     and_then (check_matcher version matcher st) (matchers_loop version rest)"

text \<open>Lines 85 to 88: the check of \<^verbatim>\<open>released_at\<close>.\<close>

definition check_released_at ::
  "(string \<Rightarrow> bool) \<Rightarrow> pyval \<Rightarrow> pyval \<Rightarrow> string list \<Rightarrow> exn + string list" where
  "check_released_at fromisoformat version details errors =
     and_then (py_in ''released_at'' details) (\<lambda>present.
     if \<not> present
     then Inr (errors @ [''Version '' @ py_str version @ '': missing '' @ quoted ''released_at''])
     else
       and_then (py_getitem details ''released_at'') (\<lambda>timestamp.
       and_then (validate_iso8601 fromisoformat timestamp) (\<lambda>ok.
       Inr (if \<not> ok
            then errors @ [''Version '' @ py_str version @ '': invalid ISO 8601 timestamp'']
            else errors))))"

text \<open>
  Lines 85 to 120: the body of the loop over \<^verbatim>\<open>versions.items()\<close>. A version without
  \<^verbatim>\<open>matchers\<close> ends the pass at \<^verbatim>\<open>continue\<close>.
\<close>

definition check_version ::
  "(string \<Rightarrow> bool) \<Rightarrow> pyval \<times> pyval \<Rightarrow> string list \<Rightarrow> exn + string list" where
  "check_version fromisoformat item errors =
     (case item of (version, details) \<Rightarrow>
      and_then (check_released_at fromisoformat version details errors) (\<lambda>errors.
      and_then (py_in ''matchers'' details) (\<lambda>present.
      if \<not> present
      then Inr (errors @ [''Version '' @ py_str version @ '': missing '' @ quoted ''matchers''])
      else
        and_then (py_getitem details ''matchers'') (\<lambda>matchers.
        and_then (py_iter matchers) (\<lambda>ms.
        and_then (matchers_loop version ms (errors, False)) (\<lambda>(errors, has_default).
        Inr (if \<not> has_default
             then errors @ [''Version '' @ py_str version @ '': missing default matcher'']
             else errors)))))))"

fun versions_loop ::
  "(string \<Rightarrow> bool) \<Rightarrow> (pyval \<times> pyval) list \<Rightarrow> string list \<Rightarrow> exn + string list" where
  "versions_loop fromisoformat [] errors = Inr errors"
| "versions_loop fromisoformat (item # rest) errors =
     and_then (check_version fromisoformat item errors) (versions_loop fromisoformat rest)"

text \<open>
  Lines 72 to 81: the body of the loop over \<^verbatim>\<open>enumerate(version_list)\<close>, at index
  \<open>i\<close>. When \<open>0 < i\<close> the index \<open>i - 1\<close> is inside the list.
\<close>

definition check_key :: "pyval list \<Rightarrow> nat \<Rightarrow> pyval \<Rightarrow> string list \<Rightarrow> exn + string list" where
  "check_key version_list i version errors =
     and_then (validate_semver version) (\<lambda>ok.
     and_then (Inr (if \<not> ok
                    then errors @ [''Invalid semantic version format: '' @ py_str version]
                    else errors)) (\<lambda>errors.
     if 0 < i
     then
       (let prev_version = version_list ! (i - 1) in
        and_then (py_le version prev_version) (\<lambda>le.
        Inr (if le
             then errors @ [''Versions not in ascending order: '' @ py_str prev_version @ '' -> '' @ py_str version]
             else errors)))
     else Inr errors))"

fun keys_loop :: "pyval list \<Rightarrow> nat \<Rightarrow> pyval list \<Rightarrow> string list \<Rightarrow> exn + string list" where
  "keys_loop version_list i [] errors = Inr errors"
| "keys_loop version_list i (version # rest) errors =
     and_then (check_key version_list i version errors) (keys_loop version_list (Suc i) rest)"

text \<open>
  Lines 55 to 61 read and parse the file; what they leave is a YAML error, another
  error, or the parsed \<^verbatim>\<open>data\<close>.
\<close>

datatype loaded = YAMLError string | OtherError string | Data pyval

text \<open>
  \<^verbatim>\<open>validate_manifest\<close>, lines 51 to 122. \<^verbatim>\<open>not data or 'versions' not in data\<close>
  tests membership only for a truthy \<open>data\<close>.
\<close>

definition validate_manifest :: "(string \<Rightarrow> bool) \<Rightarrow> loaded \<Rightarrow> exn + string list" where
  "validate_manifest fromisoformat file =
     (case file of
        YAMLError e \<Rightarrow> Inr [''YAML syntax error: '' @ e]
      | OtherError e \<Rightarrow> Inr [''Error reading file: '' @ e]
      | Data data \<Rightarrow>
          and_then (if \<not> truthy data then Inr True
                    else and_then (py_in ''versions'' data) (\<lambda>present. Inr (\<not> present))) (\<lambda>missing.
          if missing then Inr [''Missing 'versions' key'']
          else
            and_then (py_getitem data ''versions'') (\<lambda>versions.
            if \<not> truthy versions then Inr [''No versions defined'']
            else
              and_then (py_keys versions) (\<lambda>version_list.
              and_then (keys_loop version_list 0 version_list []) (\<lambda>errors.
              and_then (py_items versions) (\<lambda>items.
              versions_loop fromisoformat items errors))))))"

section \<open>Proof devices\<close>

text \<open>
  The checks of one matcher that follow the test of its type, as a function of the error
  list alone.
\<close>

definition matcher_checks :: "pyval \<Rightarrow> pyval \<Rightarrow> pyval \<Rightarrow> string list \<Rightarrow> exn + string list" where
  "matcher_checks t v m errors =
     and_then (if t = PStr ''country'' then check_country v m errors else Inr errors) (\<lambda>errors.
     and_then (if t = PStr ''location_hash'' then check_location_hash v m errors else Inr errors) (\<lambda>errors.
     check_severity v m errors))"

text \<open>
  A check is \<open>framed\<close> when it only appends to the error list it is given: its result
  on \<open>errs\<close> is \<open>errs\<close> followed by its result on the empty list, and it raises on
  one exactly when it raises on the other.
\<close>

definition framed :: "(string list \<Rightarrow> exn + string list) \<Rightarrow> bool" where
  "framed f = (\<forall>errs. f errs = and_then (f []) (\<lambda>new. Inr (errs @ new)))"

text \<open>\<open>emits P f\<close>: every message the check \<open>f\<close> appends satisfies \<open>P\<close>.\<close>

definition emits :: "(string \<Rightarrow> bool) \<Rightarrow> (string list \<Rightarrow> exn + string list) \<Rightarrow> bool" where
  "emits P f = (\<forall>new. f [] = Inr new \<longrightarrow> list_all P new)"

section \<open>Example manifests\<close>

text \<open>
  The closed examples need a verdict of \<^verbatim>\<open>datetime.fromisoformat\<close>. The library
  accepts \<^verbatim>\<open>2024-01-01T00:00:00+00:00\<close>; the examples pass it no other string that
  it accepts, so on them this stand-in agrees with the library.
\<close>

definition fromisoformat_sample :: "string \<Rightarrow> bool" where
  "fromisoformat_sample s = (s = ''2024-01-01T00:00:00+00:00'')"

text \<open>A manifest with the given versions, and a version entry with the given matchers.\<close>

definition manifest :: "(pyval \<times> pyval) list \<Rightarrow> pyval" where
  "manifest versions = PDict [(PStr ''versions'', PDict versions)]"

definition entry :: "pyval list \<Rightarrow> pyval" where
  "entry matchers =
     PDict [(PStr ''released_at'', PStr ''2024-01-01T00:00:00Z''), (PStr ''matchers'', PList matchers)]"

definition matcher :: "string \<Rightarrow> string \<Rightarrow> string \<Rightarrow> pyval" where
  "matcher matcher_type matcher_value severity =
     PDict [(PStr ''matcher_type'', PStr matcher_type), (PStr ''matcher_value'', PStr matcher_value),
            (PStr ''severity'', PStr severity)]"

definition default_green :: pyval where
  "default_green = PDict [(PStr ''matcher_type'', PStr ''default''), (PStr ''severity'', PStr ''green'')]"

text \<open>Concrete scenario 1 of the specification.\<close>

definition scenario_1 :: pyval where
  "scenario_1 = manifest [(PStr ''1.0.0'', entry [default_green])]"

text \<open>
  A manifest of the right shape and wrong content: keys that are no versions and
  descend, a timestamp that is none, an unknown matcher type, a country that is a number,
  a malformed hash, severities that are absent.
\<close>

definition malformed_content :: pyval where
  "malformed_content =
     manifest
       [(PStr ''v2'',
         PDict [(PStr ''released_at'', PStr ''yesterday''),
                (PStr ''matchers'',
                 PList [PDict [(PStr ''matcher_type'', PInt 7)],
                        PDict [(PStr ''matcher_type'', PStr ''country''), (PStr ''matcher_value'', PInt 5)],
                        PDict [(PStr ''matcher_type'', PStr ''location_hash''),
                               (PStr ''matcher_value'', PStr ''abc'')]])]),
        (PStr ''v1'', PDict [])]"

text \<open>A manifest with two versions and a matcher of each type.\<close>

definition two_versions :: pyval where
  "two_versions =
     manifest
       [(PStr ''1.0.0'', entry [default_green]),
        (PStr ''1.2.0'',
         entry [matcher ''country'' ''US'' ''yellow'',
                matcher ''location_hash''
                  ''0123456789abcdef0123456789abcdef0123456789abcdef0123456789abcdef'' ''red'',
                default_green])]"

text \<open>
  Two versions whose keys ascend as numbers and descend as strings, and the same two in
  the other order.
\<close>

definition two_then_ten :: pyval where
  "two_then_ten = manifest [(PStr ''2.0.0'', entry [default_green]), (PStr ''10.0.0'', entry [default_green])]"

definition ten_then_two :: pyval where
  "ten_then_two = manifest [(PStr ''10.0.0'', entry [default_green]), (PStr ''2.0.0'', entry [default_green])]"

text \<open>A key that is no version and is below the key before it.\<close>

definition short_key :: pyval where
  "short_key = manifest [(PStr ''2.0.0'', entry [default_green]), (PStr ''1.0'', entry [default_green])]"

text \<open>
  Concrete scenario 4 of the specification, a matcher with a malformed hash, and a matcher
  of an unknown type with a severity that is unknown too.
\<close>

definition scenario_4 :: pyval where
  "scenario_4 = manifest [(PStr ''1.0.0'', entry [matcher ''location_hash'' ''abc'' ''red'', default_green])]"

definition unknown_type :: pyval where
  "unknown_type = manifest [(PStr ''1.0.0'', entry [matcher ''region'' ''EU'' ''blue'', default_green])]"

text \<open>A \<^verbatim>\<open>country\<close> matcher without a severity.\<close>

definition no_severity :: pyval where
  "no_severity =
     manifest [(PStr ''1.0.0'',
       entry [PDict [(PStr ''matcher_type'', PStr ''country''), (PStr ''matcher_value'', PStr ''US'')],
              default_green])]"

text \<open>
  A \<^verbatim>\<open>location_hash\<close> value of 65 characters: 64 lowercase hexadecimal digits, then a
  newline.
\<close>

definition newline_hash :: pyval where
  "newline_hash =
     manifest [(PStr ''1.0.0'',
       entry [matcher ''location_hash''
                (''0123456789abcdef0123456789abcdef0123456789abcdef0123456789abcdef'' @ [CHR 0x0A]) ''red'',
              default_green])]"

text \<open>
  Concrete scenario 3 of the specification, a version whose only matcher is a
  \<^verbatim>\<open>country\<close> matcher; a version with two \<^verbatim>\<open>default\<close> matchers; and a version whose
  \<^verbatim>\<open>matchers\<close> is the empty sequence.
\<close>

definition scenario_3 :: pyval where
  "scenario_3 = manifest [(PStr ''1.0.0'', entry [matcher ''country'' ''US'' ''green''])]"

definition two_defaults :: pyval where
  "two_defaults = manifest [(PStr ''1.0.0'', entry [default_green, default_green])]"

definition no_matchers :: pyval where
  "no_matchers = manifest [(PStr ''1.0.0'', entry [])]"

text \<open>Two matchers of one version with the same malformed hash.\<close>

definition same_error_twice :: pyval where
  "same_error_twice =
     manifest [(PStr ''1.0.0'',
       entry [matcher ''location_hash'' ''abc'' ''red'', matcher ''location_hash'' ''abc'' ''red'',
              default_green])]"

text \<open>
  \<^verbatim>\<open>datetime.fromisoformat\<close> takes any character between the date and the time: it
  accepts \<^verbatim>\<open>2024-01-01Z00:00:00+00:00\<close>, and it rejects
  \<^verbatim>\<open>2024-01-01+00:0000:00:00+00:00\<close>. This stand-in gives the verdict of the library on
  the strings that the example below passes to it. The example is scenario 1 with the
  timestamp \<^verbatim>\<open>2024-01-01Z00:00:00Z\<close>.
\<close>

definition fromisoformat_any_separator :: "string \<Rightarrow> bool" where
  "fromisoformat_any_separator s = (s = ''2024-01-01Z00:00:00+00:00'')"

definition z_separator :: pyval where
  "z_separator =
     manifest [(PStr ''1.0.0'',
       PDict [(PStr ''released_at'', PStr ''2024-01-01Z00:00:00Z''),
              (PStr ''matchers'', PList [default_green])])]"

section \<open>The shape of a manifest in the data model\<close>



text \<open>The value of a field of a mapping, null when the field is absent.\<close>

definition field :: "(pyval \<times> pyval) list \<Rightarrow> string \<Rightarrow> pyval" where
  "field d key = (case map_of d (PStr key) of None \<Rightarrow> PNone | Some x \<Rightarrow> x)"




section \<open>The validation rules\<close>

text \<open>\<open>is_str_with P v\<close>: the value is a string that satisfies \<open>P\<close>.\<close>

fun is_str_with :: "(string \<Rightarrow> bool) \<Rightarrow> pyval \<Rightarrow> bool" where
  "is_str_with P (PStr s) = P s"
| "is_str_with P v = False"

text \<open>
  A matcher satisfies the rules when its type is one of the three matcher types, the
  value of a \<^verbatim>\<open>country\<close> matcher is one of the valid countries, the value of a
  \<^verbatim>\<open>location_hash\<close> matcher matches \<^verbatim>\<open>^[a-f0-9]{64}$\<close>, and its severity is one of
  the three severities.
\<close>

definition valid_matcher :: "pyval \<Rightarrow> bool" where
  "valid_matcher m =
     (case m of
        PDict d \<Rightarrow>
          is_str_with (\<lambda>t. t \<in> set MATCHER_TYPES) (field d ''matcher_type'')
          \<and> (if field d ''matcher_type'' = PStr ''country''
               then is_str_with (\<lambda>c. c \<in> set VALID_COUNTRIES) (field d ''matcher_value'')
               else True)
          \<and> (if field d ''matcher_type'' = PStr ''location_hash''
               then is_str_with hash_match (field d ''matcher_value'')
               else True)
          \<and> is_str_with (\<lambda>s. s \<in> set SEVERITY_VALUES) (field d ''severity'')
      | _ \<Rightarrow> False)"

definition is_default :: "pyval \<Rightarrow> bool" where
  "is_default m = (case m of PDict d \<Rightarrow> field d ''matcher_type'' = PStr ''default'' | _ \<Rightarrow> False)"

text \<open>
  The substitution of the claim: a \<^verbatim>\<open>Z\<close> that ends the string becomes
  \<^verbatim>\<open>+00:00\<close>, and nothing else changes. The substitution of the code is \<open>replace_Z\<close>.
\<close>

definition replace_trailing_Z :: "string \<Rightarrow> string" where
  "replace_trailing_Z s = (if s \<noteq> [] \<and> last s = CHR ''Z'' then butlast s @ ''+00:00'' else s)"

text \<open>
  A version entry satisfies the rules, read with the substitution \<open>subst\<close>, when
  \<^verbatim>\<open>released_at\<close> is a string that \<^verbatim>\<open>datetime.fromisoformat\<close> accepts after the
  substitution, and \<^verbatim>\<open>matchers\<close> is a list of matchers that satisfy the rules, one of
  them at least of type \<^verbatim>\<open>default\<close>.
\<close>

definition entry_rules :: "(string \<Rightarrow> string) \<Rightarrow> (string \<Rightarrow> bool) \<Rightarrow> pyval \<Rightarrow> bool" where
  "entry_rules subst fromisoformat e =
     (case e of
        PDict d \<Rightarrow>
          (case map_of d (PStr ''released_at'') of
             Some ts \<Rightarrow> is_str_with (\<lambda>s. fromisoformat (subst s)) ts
           | None \<Rightarrow> False)
          \<and> (case map_of d (PStr ''matchers'') of
                Some (PList ms) \<Rightarrow> list_all valid_matcher ms \<and> list_ex is_default ms
              | _ \<Rightarrow> False)
      | _ \<Rightarrow> False)"

text \<open>Each string is less than the next one, in the order of strings.\<close>

fun ascending :: "string list \<Rightarrow> bool" where
  "ascending (a # b # rest) = (str_less a b \<and> ascending (b # rest))"
| "ascending keys = True"

text \<open>
  A manifest satisfies the rules, read with the substitution \<open>subst\<close>, when
  \<^verbatim>\<open>versions\<close> is a mapping that is not empty, whose keys are strings that match
  \<^verbatim>\<open>^\d+\.\d+\.\d+$\<close> and ascend, and whose entries satisfy the rules. C1 words the
  rules with \<open>replace_trailing_Z\<close>; the validator applies them with \<open>replace_Z\<close>.
\<close>

definition manifest_rules :: "(string \<Rightarrow> string) \<Rightarrow> (string \<Rightarrow> bool) \<Rightarrow> pyval \<Rightarrow> bool" where
  "manifest_rules subst fromisoformat m =
     (case m of
        PDict d \<Rightarrow>
          (case map_of d (PStr ''versions'') of
             Some (PDict items) \<Rightarrow>
               items \<noteq> []
               \<and> list_all (\<lambda>(k, e). is_str_with semver_match k \<and> entry_rules subst fromisoformat e) items
               \<and> ascending (map (\<lambda>(k, e). py_str k) items)
           | _ \<Rightarrow> False)
      | _ \<Rightarrow> False)"

section \<open>The errors of a manifest, in the order of the specification\<close>

text \<open>
  The algorithm of the specification, written as the list of errors it produces: a second
  definition, from the words of the specification, that \<^verbatim>\<open>validate_manifest\<close> is compared
  with. It reads a value that is not a mapping as a mapping without fields and a value
  that cannot be iterated as an empty sequence.
\<close>

definition fields :: "pyval \<Rightarrow> (pyval \<times> pyval) list" where
  "fields v = (case v of PDict kv \<Rightarrow> kv | _ \<Rightarrow> [])"

definition elements :: "pyval \<Rightarrow> pyval list" where
  "elements v = (case py_iter v of Inr xs \<Rightarrow> xs | Inl e \<Rightarrow> [])"

text \<open>
  Step 2: for each key in the order met, the error of its format, then, when there is a
  key before it and the key is not greater as a string, the error of the order.
\<close>

fun expected_key_errors :: "string option \<Rightarrow> string list \<Rightarrow> string list" where
  "expected_key_errors prev [] = []"
| "expected_key_errors prev (k # ks) =
     (if semver_match k then [] else [''Invalid semantic version format: '' @ k])
     @ (case prev of
          None \<Rightarrow> []
        | Some p \<Rightarrow>
            if str_le k p then [''Versions not in ascending order: '' @ p @ '' -> '' @ k] else [])
     @ expected_key_errors (Some k) ks"

text \<open>
  Step 3, for one matcher of version \<open>v\<close>: the error of an unknown type and nothing else;
  or else the error of the country, the error of the location hash, and the error of the
  severity, in this order.
\<close>

definition expected_matcher_errors :: "string \<Rightarrow> pyval \<Rightarrow> string list" where
  "expected_matcher_errors v m =
     (let t = field (fields m) ''matcher_type'';
          x = field (fields m) ''matcher_value'';
          s = field (fields m) ''severity''
      in if \<not> is_str_with (\<lambda>t. t \<in> set MATCHER_TYPES) t
         then [''Version '' @ v @ '': invalid matcher_type '' @ quoted (py_str t)]
         else
           (if t = PStr ''country'' \<and> \<not> is_str_with (\<lambda>c. c \<in> set VALID_COUNTRIES) x
            then [''Version '' @ v @ '': invalid country code '' @ quoted (py_str x)] else [])
           @ (if t = PStr ''location_hash'' \<and> \<not> is_str_with hash_match x
              then [''Version '' @ v @ '': invalid location hash format''] else [])
           @ (if \<not> is_str_with (\<lambda>s. s \<in> set SEVERITY_VALUES) s
              then [''Version '' @ v @ '': invalid severity '' @ quoted (py_str s)] else []))"

text \<open>
  Step 3, for one version: the error of \<^verbatim>\<open>released_at\<close>; then the error of absent
  \<^verbatim>\<open>matchers\<close>, or else the errors of each matcher in the order of the sequence and
  the error of the missing default matcher.
\<close>

definition expected_version_errors :: "(string \<Rightarrow> bool) \<Rightarrow> pyval \<times> pyval \<Rightarrow> string list" where
  "expected_version_errors fromisoformat item =
     (case item of (version, details) \<Rightarrow>
        (case map_of (fields details) (PStr ''released_at'') of
           None \<Rightarrow> [''Version '' @ py_str version @ '': missing '' @ quoted ''released_at'']
         | Some ts \<Rightarrow>
             if is_str_with (\<lambda>s. fromisoformat (replace_Z s)) ts then []
             else [''Version '' @ py_str version @ '': invalid ISO 8601 timestamp''])
        @ (case map_of (fields details) (PStr ''matchers'') of
             None \<Rightarrow> [''Version '' @ py_str version @ '': missing '' @ quoted ''matchers'']
           | Some matchers \<Rightarrow>
               concat (map (expected_matcher_errors (py_str version)) (elements matchers))
               @ (if list_ex is_default (elements matchers) then []
                  else [''Version '' @ py_str version @ '': missing default matcher''])))"

text \<open>Steps 2 to 4: the errors of the keys, then the errors of each version in order.\<close>

definition expected_errors :: "(string \<Rightarrow> bool) \<Rightarrow> (pyval \<times> pyval) list \<Rightarrow> string list" where
  "expected_errors fromisoformat items =
     expected_key_errors None (map (\<lambda>(k, e). py_str k) items)
     @ concat (map (expected_version_errors fromisoformat) items)"

section \<open>The values the validator formats\<close>

text \<open>
  A message quotes a value only after the membership test has hashed it or \<^verbatim>\<open>not v\<close>
  has held. Such a value is a scalar or an empty container, and \<open>py_str\<close> has an equation
  for it.
\<close>

lemma formatted_value:
  assumes "in_str_set v S = Inr b \<or> \<not> truthy v"
  shows "v = PNone \<or> (\<exists>b. v = PBool b) \<or> (\<exists>i. v = PInt i) \<or> (\<exists>s. v = PStr s)
         \<or> v = PList [] \<or> v = PDict []"
  using assms by (cases v) auto

section \<open>Every check appends to the error list\<close>

lemma and_then_Inr [simp]: "and_then (Inr x) f = f x"
  by (simp add: and_then_def)

lemma and_then_Inl [simp]: "and_then (Inl e) f = Inl e"
  by (simp add: and_then_def)

lemma and_then_eq_Inr: "and_then m f = Inr y \<longleftrightarrow> (\<exists>x. m = Inr x \<and> f x = Inr y)"
  by (cases m) simp_all

lemma and_then_assoc: "and_then (and_then m f) g = and_then m (\<lambda>x. and_then (f x) g)"
  by (cases m) simp_all

lemma check_country_frame:
  "check_country v m errs = and_then (check_country v m []) (\<lambda>new. Inr (errs @ new))"
proof (cases "py_get m ''matcher_value''")
  case (Inl e)
  then show ?thesis by (simp add: check_country_def)
next
  case (Inr c)
  show ?thesis
  proof (cases "truthy c")
    case False
    with Inr show ?thesis by (simp add: check_country_def)
  next
    case True
    with Inr show ?thesis
      by (cases "in_str_set c VALID_COUNTRIES") (simp_all add: check_country_def)
  qed
qed

lemma check_location_hash_frame:
  "check_location_hash v m errs = and_then (check_location_hash v m []) (\<lambda>new. Inr (errs @ new))"
proof (cases "py_get m ''matcher_value''")
  case (Inl e)
  then show ?thesis by (simp add: check_location_hash_def)
next
  case (Inr h)
  show ?thesis
  proof (cases "truthy h")
    case False
    with Inr show ?thesis by (simp add: check_location_hash_def)
  next
    case True
    with Inr show ?thesis
      by (cases "validate_location_hash h") (simp_all add: check_location_hash_def)
  qed
qed

lemma check_severity_frame:
  "check_severity v m errs = and_then (check_severity v m []) (\<lambda>new. Inr (errs @ new))"
proof (cases "py_get m ''severity''")
  case (Inl e)
  then show ?thesis by (simp add: check_severity_def)
next
  case (Inr s)
  then show ?thesis
    by (cases "in_str_set s SEVERITY_VALUES") (simp_all add: check_severity_def)
qed


lemma framedI: "(\<And>errs. f errs = and_then (f []) (\<lambda>new. Inr (errs @ new))) \<Longrightarrow> framed f"
  unfolding framed_def by blast

lemma framedD: "framed f \<Longrightarrow> f errs = and_then (f []) (\<lambda>new. Inr (errs @ new))"
  unfolding framed_def by blast

lemma framed_Inr: "framed Inr"
  by (simp add: framed_def)

lemma framed_emit: "framed (\<lambda>errs. Inr (if b then errs @ [x] else errs))"
  by (simp add: framed_def)

lemma framed_if: "framed f \<Longrightarrow> framed g \<Longrightarrow> framed (\<lambda>errs. if b then f errs else g errs)"
  by (cases b) simp_all

lemma framed_seq:
  assumes "framed f" and "framed g"
  shows "framed (\<lambda>errs. and_then (f errs) g)"
proof (rule framedI)
  fix errs
  show "and_then (f errs) g = and_then (and_then (f []) g) (\<lambda>new. Inr (errs @ new))"
  proof (cases "f []")
    case (Inl e)
    then show ?thesis using framedD [OF assms(1), of errs] by simp
  next
    case (Inr a)
    show ?thesis
    proof (cases "g []")
      case (Inl e)
      then show ?thesis
        using Inr framedD [OF assms(1), of errs] framedD [OF assms(2), of "errs @ a"]
          framedD [OF assms(2), of a] by simp
    next
      case (Inr b)
      then show ?thesis
        using \<open>f [] = Inr a\<close> framedD [OF assms(1), of errs] framedD [OF assms(2), of "errs @ a"]
          framedD [OF assms(2), of a] by simp
    qed
  qed
qed

lemma framed_bind:
  assumes "\<And>x. framed (f x)"
  shows "framed (\<lambda>errs. and_then m (\<lambda>x. f x errs))"
proof (rule framedI)
  fix errs
  show "and_then m (\<lambda>x. f x errs) = and_then (and_then m (\<lambda>x. f x [])) (\<lambda>new. Inr (errs @ new))"
    using framedD [OF assms, of _ errs] by (cases m) simp_all
qed

lemma framed_check_country: "framed (check_country v m)"
  by (rule framedI) (rule check_country_frame)

lemma framed_check_location_hash: "framed (check_location_hash v m)"
  by (rule framedI) (rule check_location_hash_frame)

lemma framed_check_severity: "framed (check_severity v m)"
  by (rule framedI) (rule check_severity_frame)

lemma framed_append: "framed (\<lambda>errs. Inr (errs @ [x]))"
  by (simp add: framed_def)

lemma framed_check_released_at: "framed (check_released_at fromiso v d)"
  unfolding check_released_at_def [abs_def]
  by (intro framed_bind framed_if framed_append framed_emit)

lemma framed_check_key: "framed (check_key vl i v)"
  unfolding check_key_def [abs_def] Let_def
  by (intro framed_bind framed_seq framed_if framed_emit framed_Inr)

lemma framed_matcher_checks: "framed (matcher_checks t v m)"
  unfolding matcher_checks_def [abs_def]
  by (intro framed_seq framed_if framed_check_country framed_check_location_hash
      framed_check_severity framed_Inr)

lemma check_matcher_known:
  assumes "py_get m ''matcher_type'' = Inr t" and "in_str_set t MATCHER_TYPES = Inr True"
  shows "check_matcher v m (errs, d) =
           and_then (matcher_checks t v m errs) (\<lambda>errors. Inr (errors, t = PStr ''default'' \<or> d))"
  using assms by (simp add: check_matcher_def matcher_checks_def and_then_assoc)

lemma check_matcher_unknown:
  assumes "py_get m ''matcher_type'' = Inr t" and "in_str_set t MATCHER_TYPES = Inr False"
  shows "check_matcher v m (errs, d) =
           Inr (errs @ [''Version '' @ py_str v @ '': invalid matcher_type '' @ quoted (py_str t)], d)"
  using assms by (simp add: check_matcher_def)

lemma check_matcher_frame:
  "check_matcher v m (errs, d) =
     and_then (check_matcher v m ([], False)) (\<lambda>(new, d'). Inr (errs @ new, d' \<or> d))"
proof (cases "py_get m ''matcher_type''")
  case (Inl e)
  then show ?thesis by (simp add: check_matcher_def)
next
  case t: (Inr t)
  show ?thesis
  proof (cases "in_str_set t MATCHER_TYPES")
    case (Inl e)
    with t show ?thesis by (simp add: check_matcher_def)
  next
    case (Inr known)
    show ?thesis
    proof (cases known)
      case False
      with t Inr show ?thesis by (simp add: check_matcher_unknown)
    next
      case True
      have kt: "in_str_set t MATCHER_TYPES = Inr True" using Inr True by simp
      note k = check_matcher_known [OF t kt]
      have fr: "matcher_checks t v m errs =
                  and_then (matcher_checks t v m []) (\<lambda>new. Inr (errs @ new))"
        by (rule framedD [OF framed_matcher_checks])
      show ?thesis
        by (cases "matcher_checks t v m []") (simp_all add: k fr)
    qed
  qed
qed

lemma matchers_loop_frame:
  "matchers_loop v ms (errs, d) =
     and_then (matchers_loop v ms ([], False)) (\<lambda>(new, d'). Inr (errs @ new, d' \<or> d))"
proof (induction ms arbitrary: errs d)
  case Nil
  show ?case by simp
next
  case (Cons m ms)
  show ?case
  proof (cases "check_matcher v m ([], False)")
    case (Inl e)
    then show ?thesis using check_matcher_frame [of v m errs d] by simp
  next
    case (Inr st)
    obtain n1 d1 where st: "st = (n1, d1)" by (cases st)
    have a: "check_matcher v m (errs, d) = Inr (errs @ n1, d1 \<or> d)"
      using check_matcher_frame [of v m errs d] Inr st by simp
    show ?thesis
    proof (cases "matchers_loop v ms ([], False)")
      case (Inl e)
      then show ?thesis
        using a Inr st Cons.IH [of "errs @ n1" "d1 \<or> d"] Cons.IH [of n1 d1] by simp
    next
      case r: (Inr st2)
      obtain n2 d2 where st2: "st2 = (n2, d2)" by (cases st2)
      show ?thesis
        using a Inr st r st2 Cons.IH [of "errs @ n1" "d1 \<or> d"] Cons.IH [of n1 d1] by auto
    qed
  qed
qed

lemma framed_matchers_default:
  "framed (\<lambda>errors. and_then (matchers_loop v ms (errors, False)) (\<lambda>(errors, has_default).
     Inr (if \<not> has_default then errors @ [x] else errors)))"
proof (rule framedI)
  fix errs
  show "and_then (matchers_loop v ms (errs, False)) (\<lambda>(errors, has_default).
          Inr (if \<not> has_default then errors @ [x] else errors)) =
        and_then (and_then (matchers_loop v ms ([], False)) (\<lambda>(errors, has_default).
          Inr (if \<not> has_default then errors @ [x] else errors))) (\<lambda>new. Inr (errs @ new))"
    by (cases "matchers_loop v ms ([], False)")
       (auto simp: matchers_loop_frame [of v ms errs False])
qed

lemma framed_check_version: "framed (check_version fromiso (v, d))"
  unfolding check_version_def [abs_def] prod.case
  by (intro framed_seq framed_check_released_at framed_bind framed_if framed_append
      framed_matchers_default)

lemma versions_loop_frame:
  "versions_loop fromiso items errs =
     and_then (versions_loop fromiso items []) (\<lambda>new. Inr (errs @ new))"
proof (induction items arbitrary: errs)
  case Nil
  show ?case by simp
next
  case (Cons item items)
  obtain v d where item: "item = (v, d)" by (cases item)
  note f = framedD [OF framed_check_version, of fromiso v d]
  show ?case
  proof (cases "check_version fromiso (v, d) []")
    case (Inl e)
    then show ?thesis using f [of errs] item by simp
  next
    case (Inr n1)
    then have a: "check_version fromiso (v, d) errs = Inr (errs @ n1)"
      using f [of errs] by simp
    show ?thesis
      using a Inr item Cons.IH [of "errs @ n1"] Cons.IH [of n1]
      by (cases "versions_loop fromiso items []") simp_all
  qed
qed

lemma keys_loop_frame:
  "keys_loop vl i rest errs = and_then (keys_loop vl i rest []) (\<lambda>new. Inr (errs @ new))"
proof (induction rest arbitrary: errs i)
  case Nil
  show ?case by simp
next
  case (Cons v rest)
  note f = framedD [OF framed_check_key, of vl i v]
  show ?case
  proof (cases "check_key vl i v []")
    case (Inl e)
    then show ?thesis using f [of errs] by simp
  next
    case (Inr n1)
    then have a: "check_key vl i v errs = Inr (errs @ n1)"
      using f [of errs] by simp
    show ?thesis
      using a Inr Cons.IH [of "Suc i" "errs @ n1"] Cons.IH [of "Suc i" n1]
      by (cases "keys_loop vl (Suc i) rest []") simp_all
  qed
qed

section \<open>The messages a check appends\<close>


lemma emitsI: "(\<And>new. f [] = Inr new \<Longrightarrow> list_all P new) \<Longrightarrow> emits P f"
  unfolding emits_def by blast

lemma emitsD: "emits P f \<Longrightarrow> f [] = Inr new \<Longrightarrow> list_all P new"
  unfolding emits_def by blast

lemma emits_Inr: "emits P Inr"
  by (rule emitsI) simp

lemma emits_append: "P x \<Longrightarrow> emits P (\<lambda>errs. Inr (errs @ [x]))"
  by (rule emitsI) auto

lemma emits_emit: "P x \<Longrightarrow> emits P (\<lambda>errs. Inr (if b then errs @ [x] else errs))"
  by (rule emitsI) (auto split: if_splits)

lemma emits_if: "emits P f \<Longrightarrow> emits P g \<Longrightarrow> emits P (\<lambda>errs. if b then f errs else g errs)"
  by (cases b) simp_all

lemma emits_bind:
  assumes "\<And>x. emits P (f x)"
  shows "emits P (\<lambda>errs. and_then m (\<lambda>x. f x errs))"
proof (rule emitsI)
  fix new
  assume "and_then m (\<lambda>x. f x []) = Inr new"
  then obtain x where "f x [] = Inr new" by (auto simp: and_then_eq_Inr)
  then show "list_all P new" by (rule emitsD [OF assms])
qed

lemma emits_seq:
  assumes "emits P f" and "emits P g" and "framed g"
  shows "emits P (\<lambda>errs. and_then (f errs) g)"
proof (rule emitsI)
  fix new
  assume "and_then (f []) g = Inr new"
  then obtain a where a: "f [] = Inr a" and g: "g a = Inr new"
    by (auto simp: and_then_eq_Inr)
  from g framedD [OF assms(3), of a] obtain b where b: "g [] = Inr b" and n: "new = a @ b"
    by (cases "g []") auto
  from emitsD [OF assms(1) a] emitsD [OF assms(2) b] n show "list_all P new" by simp
qed

lemma emits_check_key:
  assumes "\<And>s. P (''Invalid semantic version format: '' @ s)"
    and "\<And>s. P (''Versions not in ascending order: '' @ s)"
  shows "emits P (check_key vl i v)"
  unfolding check_key_def [abs_def] Let_def
  by (intro emits_bind emits_seq emits_if emits_emit emits_Inr assms
      framed_bind framed_if framed_emit framed_Inr)

lemma keys_loop_emits:
  assumes "\<And>s. P (''Invalid semantic version format: '' @ s)"
    and "\<And>s. P (''Versions not in ascending order: '' @ s)"
  shows "keys_loop vl i rest [] = Inr new \<Longrightarrow> list_all P new"
proof (induction rest arbitrary: i new)
  case Nil
  then show ?case by simp
next
  case (Cons v rest)
  from Cons.prems obtain a where a: "check_key vl i v [] = Inr a"
    and r: "keys_loop vl (Suc i) rest a = Inr new"
    by (auto simp: and_then_eq_Inr)
  from r keys_loop_frame [of vl "Suc i" rest a] obtain b
    where b: "keys_loop vl (Suc i) rest [] = Inr b" and n: "new = a @ b"
    by (cases "keys_loop vl (Suc i) rest []") auto
  from emitsD [OF emits_check_key [of P, OF assms] a] Cons.IH [OF b] n
  show ?case by simp
qed

lemma emits_check_country:
  assumes "\<And>s. P (''Version '' @ py_str v @ '': invalid '' @ s)"
  shows "emits P (check_country v m)"
proof -
  have p: "\<And>s. P (''Version '' @ py_str v @ '': invalid country code '' @ s)"
    using assms [of "''country code '' @ s" for s] by simp
  show ?thesis
    unfolding check_country_def [abs_def]
    by (intro emits_bind emits_emit p)
qed

lemma emits_check_location_hash:
  assumes "\<And>s. P (''Version '' @ py_str v @ '': invalid '' @ s)"
  shows "emits P (check_location_hash v m)"
proof -
  have p: "P (''Version '' @ py_str v @ '': invalid location hash format'')"
    using assms [of "''location hash format''"] by simp
  show ?thesis
    unfolding check_location_hash_def [abs_def]
    by (intro emits_bind emits_emit p)
qed

lemma emits_check_severity:
  assumes "\<And>s. P (''Version '' @ py_str v @ '': invalid '' @ s)"
  shows "emits P (check_severity v m)"
proof -
  have p: "\<And>s. P (''Version '' @ py_str v @ '': invalid severity '' @ s)"
    using assms [of "''severity '' @ s" for s] by simp
  show ?thesis
    unfolding check_severity_def [abs_def]
    by (intro emits_bind emits_emit p)
qed

lemma emits_matcher_checks:
  assumes "\<And>s. P (''Version '' @ py_str v @ '': invalid '' @ s)"
  shows "emits P (matcher_checks t v m)"
  unfolding matcher_checks_def [abs_def]
  by (intro emits_seq emits_if emits_Inr emits_check_country emits_check_location_hash
      emits_check_severity assms framed_seq framed_if framed_Inr framed_check_location_hash
      framed_check_severity)

lemma check_matcher_emits:
  assumes "\<And>s. P (''Version '' @ py_str v @ '': invalid '' @ s)"
    and "check_matcher v m ([], False) = Inr (new, d)"
  shows "list_all P new"
proof -
  from assms(2) obtain t known where t: "py_get m ''matcher_type'' = Inr t"
    and k: "in_str_set t MATCHER_TYPES = Inr known"
    by (auto simp: check_matcher_def and_then_eq_Inr)
  show ?thesis
  proof (cases known)
    case False
    have "P (''Version '' @ py_str v @ '': invalid matcher_type '' @ quoted (py_str t))"
      using assms(1) [of "''matcher_type '' @ quoted (py_str t)"] by simp
    with assms(2) t k False show ?thesis by (auto simp: check_matcher_unknown)
  next
    case True
    with assms(2) t k have "matcher_checks t v m [] = Inr new"
      by (auto simp: check_matcher_known and_then_eq_Inr)
    then show ?thesis
      by (rule emitsD [OF emits_matcher_checks [of P, OF assms(1)]])
  qed
qed

lemma matchers_loop_emits:
  assumes "\<And>s. P (''Version '' @ py_str v @ '': invalid '' @ s)"
  shows "matchers_loop v ms ([], False) = Inr (new, d) \<Longrightarrow> list_all P new"
proof (induction ms arbitrary: new d)
  case Nil
  then show ?case by simp
next
  case (Cons m ms)
  from Cons.prems obtain a da where a: "check_matcher v m ([], False) = Inr (a, da)"
    and r: "matchers_loop v ms (a, da) = Inr (new, d)"
    by (auto simp: and_then_eq_Inr)
  from r matchers_loop_frame [of v ms a da] obtain b db
    where b: "matchers_loop v ms ([], False) = Inr (b, db)" and n: "new = a @ b"
    by (cases "matchers_loop v ms ([], False)") auto
  from check_matcher_emits [of P, OF assms a] Cons.IH [OF b] n show ?case by simp
qed

lemma emits_check_released_at:
  assumes "\<And>s. P (''Version '' @ py_str v @ '': '' @ s)"
  shows "emits P (check_released_at fromiso v d)"
proof -
  have p: "P (''Version '' @ py_str v @ '': missing '' @ quoted ''released_at'')"
    using assms [of "''missing '' @ quoted ''released_at''"] by simp
  have q: "P (''Version '' @ py_str v @ '': invalid ISO 8601 timestamp'')"
    using assms [of "''invalid ISO 8601 timestamp''"] by simp
  show ?thesis
    unfolding check_released_at_def [abs_def]
    by (intro emits_bind emits_if emits_append emits_emit p q)
qed

lemma emits_matchers_default:
  assumes "\<And>s. P (''Version '' @ py_str v @ '': '' @ s)"
  shows "emits P (\<lambda>errors. and_then (matchers_loop v ms (errors, False)) (\<lambda>(errors, has_default).
     Inr (if \<not> has_default
          then errors @ [''Version '' @ py_str v @ '': missing default matcher'']
          else errors)))"
proof (rule emitsI)
  fix new
  assume "and_then (matchers_loop v ms ([], False)) (\<lambda>(errors, has_default).
     Inr (if \<not> has_default
          then errors @ [''Version '' @ py_str v @ '': missing default matcher'']
          else errors)) = Inr new"
  then obtain a d where a: "matchers_loop v ms ([], False) = Inr (a, d)"
    and n: "new = (if \<not> d then a @ [''Version '' @ py_str v @ '': missing default matcher''] else a)"
    by (auto simp: and_then_eq_Inr)
  have "P (''Version '' @ py_str v @ '': missing default matcher'')"
    using assms [of "''missing default matcher''"] by simp
  moreover have "\<And>s. P (''Version '' @ py_str v @ '': invalid '' @ s)"
    using assms [of "''invalid '' @ s" for s] by simp
  from matchers_loop_emits [of P, OF this a] have "list_all P a" .
  ultimately show "list_all P new" using n by simp
qed

lemma emits_check_version:
  assumes "\<And>s. P (''Version '' @ py_str v @ '': '' @ s)"
  shows "emits P (check_version fromiso (v, d))"
proof -
  have p: "P (''Version '' @ py_str v @ '': missing '' @ quoted ''matchers'')"
    using assms [of "''missing '' @ quoted ''matchers''"] by simp
  show ?thesis
    unfolding check_version_def [abs_def] prod.case
    by (intro emits_seq emits_check_released_at emits_bind emits_if emits_append
        emits_matchers_default assms p framed_bind framed_if framed_append
        framed_matchers_default)
qed

section \<open>The run of the validator\<close>

lemma py_getitem_Inr: "py_getitem m key = Inr x \<longleftrightarrow> (\<exists>d. m = PDict d \<and> map_of d (PStr key) = Some x)"
  by (cases m) (auto split: option.splits)

lemma py_in_dict: "py_in key (PDict d) = Inr (map_of d (PStr key) \<noteq> None)"
  by (simp add: map_of_eq_None_iff)

lemma py_get_dict: "py_get (PDict d) key = Inr (field d key)"
  by (simp add: field_def)

lemma py_keys_Inr: "py_keys v = Inr ks \<longleftrightarrow> (\<exists>items. v = PDict items \<and> ks = map fst items)"
  by (cases v) auto

text \<open>The run of validate_manifest past the two early returns.\<close>

lemma validate_manifest_run:
  assumes "map_of d (PStr ''versions'') = Some (PDict items)" and "items \<noteq> []"
  shows "validate_manifest fromiso (Data (PDict d)) =
           and_then (keys_loop (map fst items) 0 (map fst items) []) (\<lambda>k.
           and_then (versions_loop fromiso items []) (\<lambda>n. Inr (k @ n)))"
proof -
  from assms(1) have ne: "d \<noteq> []" by auto
  from assms(1) have "(PStr ''versions'', PDict items) \<in> set d" by (rule map_of_SomeD)
  then have key: "PStr ''versions'' \<in> fst ` set d" by force
  have "validate_manifest fromiso (Data (PDict d)) =
          and_then (keys_loop (map fst items) 0 (map fst items) []) (versions_loop fromiso items)"
    using assms ne key by (simp add: validate_manifest_def)
  also have "\<dots> = and_then (keys_loop (map fst items) 0 (map fst items) []) (\<lambda>k.
           and_then (versions_loop fromiso items []) (\<lambda>n. Inr (k @ n)))"
  proof (cases "keys_loop (map fst items) 0 (map fst items) []")
    case (Inl e)
    then show ?thesis by simp
  next
    case (Inr k)
    then show ?thesis using versions_loop_frame [of fromiso items k] by simp
  qed
  finally show ?thesis .
qed

lemma validate_manifest_cases:
  assumes "validate_manifest fromiso (Data m) = Inr errs"
  shows "(py_in ''versions'' m = Inr False \<or> \<not> truthy m) \<and> errs = [''Missing 'versions' key'']
       \<or> (\<exists>d vs. m = PDict d \<and> map_of d (PStr ''versions'') = Some vs \<and> \<not> truthy vs
             \<and> errs = [''No versions defined''])
       \<or> (\<exists>d items k n. m = PDict d \<and> map_of d (PStr ''versions'') = Some (PDict items)
             \<and> items \<noteq> [] \<and> keys_loop (map fst items) 0 (map fst items) [] = Inr k
             \<and> versions_loop fromiso items [] = Inr n \<and> errs = k @ n)"
proof (cases "truthy m")
  case False
  with assms show ?thesis by (auto simp: validate_manifest_def)
next
  case True
  show ?thesis
  proof (cases "py_in ''versions'' m")
    case (Inl e)
    with assms True show ?thesis by (simp add: validate_manifest_def)
  next
    case (Inr present)
    show ?thesis
    proof (cases present)
      case False
      with assms True Inr show ?thesis by (auto simp: validate_manifest_def)
    next
      case p: True
      with assms True Inr obtain vs where vs: "py_getitem m ''versions'' = Inr vs"
        by (cases "py_getitem m ''versions''") (auto simp: validate_manifest_def)
      then obtain d where d: "m = PDict d" and mo: "map_of d (PStr ''versions'') = Some vs"
        by (auto simp: py_getitem_Inr)
      show ?thesis
      proof (cases "truthy vs")
        case False
        with assms True Inr p vs d mo show ?thesis by (auto simp: validate_manifest_def)
      next
        case tv: True
        with assms True Inr p vs obtain ks where "py_keys vs = Inr ks"
          by (cases "py_keys vs") (auto simp: validate_manifest_def)
        then obtain items where items: "vs = PDict items" by (auto simp: py_keys_Inr)
        with tv have ne: "items \<noteq> []" by simp
        from assms d mo items ne show ?thesis
          by (auto simp: validate_manifest_run and_then_eq_Inr)
      qed
    qed
  qed
qed

section \<open>What each pass of a loop contributes\<close>

lemma versions_loop_Cons:
  "versions_loop fromiso (item # items) [] = Inr new \<longleftrightarrow>
     (\<exists>a b. check_version fromiso item [] = Inr a \<and> versions_loop fromiso items [] = Inr b
        \<and> new = a @ b)"
proof (cases "check_version fromiso item []")
  case (Inl e)
  then show ?thesis by simp
next
  case (Inr a)
  then show ?thesis
    using versions_loop_frame [of fromiso items a]
    by (cases "versions_loop fromiso items []") auto
qed

lemma versions_loop_emits:
  assumes "\<And>v d. (v, d) \<in> set items \<Longrightarrow> emits P (check_version fromiso (v, d))"
  shows "versions_loop fromiso items [] = Inr new \<Longrightarrow> list_all P new"
  using assms
proof (induction items arbitrary: new)
  case Nil
  then show ?case by simp
next
  case (Cons item items)
  obtain v d where item: "item = (v, d)" by (cases item)
  from Cons.prems(1) obtain a b where a: "check_version fromiso (v, d) [] = Inr a"
    and b: "versions_loop fromiso items [] = Inr b" and n: "new = a @ b"
    unfolding versions_loop_Cons item by blast
  have "list_all P a" by (rule emitsD [OF Cons.prems(2) a]) (simp add: item)
  moreover have "list_all P b" by (rule Cons.IH [OF b]) (simp add: Cons.prems(2))
  ultimately show ?case using n by simp
qed

text \<open>What one version contributes is part of what the loop returns.\<close>

lemma versions_loop_member:
  assumes "versions_loop fromiso items [] = Inr new"
  shows "e \<in> set new \<longleftrightarrow>
           (\<exists>item a. item \<in> set items \<and> check_version fromiso item [] = Inr a \<and> e \<in> set a)"
  using assms
proof (induction items arbitrary: new)
  case Nil
  then show ?case by simp
next
  case (Cons item items)
  from Cons.prems obtain a b where a: "check_version fromiso item [] = Inr a"
    and b: "versions_loop fromiso items [] = Inr b" and n: "new = a @ b"
    unfolding versions_loop_Cons by blast
  obtain v d where "item = (v, d)" by (cases item)
  then show ?case using Cons.IH [OF b] a n by fastforce
qed

lemma versions_loop_returns:
  assumes "versions_loop fromiso items [] = Inr new" and "item \<in> set items"
  shows "\<exists>a. check_version fromiso item [] = Inr a"
  using assms
proof (induction items arbitrary: new)
  case Nil
  then show ?case by simp
next
  case (Cons x items)
  from Cons.prems(1) obtain a b where a: "check_version fromiso x [] = Inr a"
    and b: "versions_loop fromiso items [] = Inr b"
    unfolding versions_loop_Cons by blast
  show ?case using Cons.IH [OF b] a Cons.prems(2) by auto
qed

lemma matchers_loop_Cons:
  "matchers_loop v (m # ms) ([], False) = Inr (new, d) \<longleftrightarrow>
     (\<exists>a da b db. check_matcher v m ([], False) = Inr (a, da)
        \<and> matchers_loop v ms ([], False) = Inr (b, db) \<and> new = a @ b \<and> d = (da \<or> db))"
proof (cases "check_matcher v m ([], False)")
  case (Inl e)
  then show ?thesis by simp
next
  case (Inr st)
  obtain a da where st: "st = (a, da)" by (cases st)
  show ?thesis
    using Inr st matchers_loop_frame [of v ms a da]
    by (cases "matchers_loop v ms ([], False)") auto
qed

lemma keys_loop_Cons:
  "keys_loop vl i (v # rest) [] = Inr new \<longleftrightarrow>
     (\<exists>a b. check_key vl i v [] = Inr a \<and> keys_loop vl (Suc i) rest [] = Inr b \<and> new = a @ b)"
proof (cases "check_key vl i v []")
  case (Inl e)
  then show ?thesis by simp
next
  case (Inr a)
  then show ?thesis
    using keys_loop_frame [of vl "Suc i" rest a]
    by (cases "keys_loop vl (Suc i) rest []") auto
qed

section \<open>Evaluating the validator on closed examples\<close>

lemmas example_defs = manifest_def entry_def matcher_def default_green_def scenario_1_def
  fromisoformat_sample_def two_versions_def malformed_content_def two_then_ten_def
  ten_then_two_def short_key_def scenario_4_def unknown_type_def no_severity_def
  newline_hash_def scenario_3_def two_defaults_def no_matchers_def same_error_twice_def
  z_separator_def fromisoformat_any_separator_def

text \<open>The definitions that evaluate the validator.\<close>

lemmas eval_defs = validate_manifest_def check_key_def check_version_def check_released_at_def
  check_matcher_def check_country_def check_location_hash_def check_severity_def
  MATCHER_TYPES_def SEVERITY_VALUES_def VALID_COUNTRIES_def semver_match_def digits1_def
  dot_def digit_def at_end_def replace_Z_def hash_match_def hex_lower_def quoted_def str_le_def

section \<open>The passes of the loop over the version keys\<close>

text \<open>
  Every pass of the loop over the keys returns when the loop does, and what it appends is
  part of what the loop returns.
\<close>

lemma keys_loop_pass:
  "keys_loop vl i rest [] = Inr k \<Longrightarrow> q < length rest \<Longrightarrow>
     \<exists>new. check_key vl (i + q) (rest ! q) [] = Inr new \<and> set new \<subseteq> set k"
proof (induction rest arbitrary: i k q)
  case Nil
  then show ?case by simp
next
  case (Cons v rest)
  from Cons.prems(1) obtain a b where a: "check_key vl i v [] = Inr a"
    and b: "keys_loop vl (Suc i) rest [] = Inr b" and k: "k = a @ b"
    unfolding keys_loop_Cons by blast
  show ?case
  proof (cases q)
    case 0
    with a k show ?thesis by simp
  next
    case (Suc q')
    with Cons.prems(2) have "q' < length rest" by simp
    from Cons.IH [OF b this] Suc k show ?thesis by auto
  qed
qed

lemma check_key_strings:
  assumes "vl ! j = PStr a"
  shows "check_key vl (Suc j) (PStr b) [] =
           Inr ((if semver_match b then [] else [''Invalid semantic version format: '' @ b])
                @ (if str_le b a then [''Versions not in ascending order: '' @ a @ '' -> '' @ b] else []))"
  using assms by (simp add: check_key_def)


lemma check_key_first:
  "check_key vl 0 (PStr a) [] =
     Inr (if semver_match a then [] else [''Invalid semantic version format: '' @ a])"
  by (simp add: check_key_def)

lemma check_key_format:
  assumes "check_key vl i (PStr a) [] = Inr new" and "\<not> semver_match a"
  shows "(''Invalid semantic version format: '' @ a) \<in> set new"
proof (cases "0 < i")
  case False
  with assms show ?thesis by (auto simp: check_key_first)
next
  case True
  with assms show ?thesis
    by (cases "py_le (PStr a) (vl ! (i - 1))") (auto simp: check_key_def split: if_splits)
qed


section \<open>The passes of the loops over the versions and the matchers\<close>

lemma key_in_dict: "PStr key \<in> fst ` set kv \<longleftrightarrow> map_of kv (PStr key) \<noteq> None"
  by (simp add: map_of_eq_None_iff)

lemma matchers_loop_pass:
  "matchers_loop v ms ([], False) = Inr (new, d) \<Longrightarrow> m \<in> set ms \<Longrightarrow>
     \<exists>a da. check_matcher v m ([], False) = Inr (a, da) \<and> set a \<subseteq> set new \<and> (da \<longrightarrow> d)"
proof (induction ms arbitrary: new d)
  case Nil
  then show ?case by simp
next
  case (Cons x ms)
  from Cons.prems(1) obtain a da b db where a: "check_matcher v x ([], False) = Inr (a, da)"
    and b: "matchers_loop v ms ([], False) = Inr (b, db)" and n: "new = a @ b" and d: "d = (da \<or> db)"
    unfolding matchers_loop_Cons by blast
  show ?case
  proof (cases "m = x")
    case True
    with a n d show ?thesis by auto
  next
    case False
    with Cons.prems(2) have "m \<in> set ms" by simp
    from Cons.IH [OF b this] n d show ?thesis by auto
  qed
qed

lemma matchers_loop_flag:
  "matchers_loop v ms ([], False) = Inr (new, d) \<Longrightarrow>
     d = (\<exists>m \<in> set ms. \<exists>a. check_matcher v m ([], False) = Inr (a, True))"
proof (induction ms arbitrary: new d)
  case Nil
  then show ?case by simp
next
  case (Cons x ms)
  from Cons.prems(1) obtain a da b db where a: "check_matcher v x ([], False) = Inr (a, da)"
    and b: "matchers_loop v ms ([], False) = Inr (b, db)" and d: "d = (da \<or> db)"
    unfolding matchers_loop_Cons by blast
  from Cons.IH [OF b] a d show ?case by auto
qed

lemma check_released_at_dict:
  "check_released_at fromiso v (PDict kv) [] = Inr r \<longleftrightarrow>
     (case map_of kv (PStr ''released_at'') of
        None \<Rightarrow> r = [''Version '' @ py_str v @ '': missing '' @ quoted ''released_at'']
      | Some ts \<Rightarrow> \<exists>ok. validate_iso8601 fromiso ts = Inr ok
          \<and> r = (if ok then [] else [''Version '' @ py_str v @ '': invalid ISO 8601 timestamp'']))"
proof (cases "map_of kv (PStr ''released_at'')")
  case None
  then show ?thesis by (auto simp: check_released_at_def key_in_dict)
next
  case (Some ts)
  then show ?thesis
    by (cases "validate_iso8601 fromiso ts") (auto simp: check_released_at_def key_in_dict)
qed

lemma check_version_dict:
  "check_version fromiso (v, PDict kv) [] = Inr part \<longleftrightarrow>
     (\<exists>r. check_released_at fromiso v (PDict kv) [] = Inr r \<and>
        (case map_of kv (PStr ''matchers'') of
           None \<Rightarrow> part = r @ [''Version '' @ py_str v @ '': missing '' @ quoted ''matchers'']
         | Some matchers \<Rightarrow> \<exists>ms new d. py_iter matchers = Inr ms
             \<and> matchers_loop v ms ([], False) = Inr (new, d)
             \<and> part = r @ new @ (if d then [] else [''Version '' @ py_str v @ '': missing default matcher''])))"
proof (cases "check_released_at fromiso v (PDict kv) []")
  case (Inl e)
  then show ?thesis by (simp add: check_version_def)
next
  case (Inr r)
  show ?thesis
  proof (cases "map_of kv (PStr ''matchers'')")
    case None
    with Inr show ?thesis by (auto simp: check_version_def key_in_dict)
  next
    case (Some matchers)
    show ?thesis
    proof (cases "py_iter matchers")
      case (Inl e)
      with Inr Some show ?thesis by (simp add: check_version_def key_in_dict)
    next
      case ms: (Inr ms)
      show ?thesis
      proof (cases "matchers_loop v ms ([], False)")
        case (Inl e)
        with Inr Some ms show ?thesis
          using matchers_loop_frame [of v ms r False] by (simp add: check_version_def key_in_dict)
      next
        case st: (Inr st)
        obtain new d where "st = (new, d)" by (cases st)
        with Inr Some ms st show ?thesis
          using matchers_loop_frame [of v ms r False]
          by (auto simp: check_version_def key_in_dict)
      qed
    qed
  qed
qed

text \<open>The pass of the version loop for one item of a run that returns.\<close>

lemma validate_manifest_pass:
  assumes "validate_manifest fromiso (Data (PDict d)) = Inr errors"
    and "map_of d (PStr ''versions'') = Some (PDict items)"
    and "item \<in> set items"
  shows "\<exists>part. check_version fromiso item [] = Inr part \<and> set part \<subseteq> set errors"
proof -
  from assms(3) have ne: "items \<noteq> []" by auto
  from assms(1) obtain k n where n: "versions_loop fromiso items [] = Inr n"
    and e: "errors = k @ n"
    by (auto simp: validate_manifest_run [OF assms(2) ne] and_then_eq_Inr)
  from versions_loop_returns [OF n assms(3)] obtain part
    where p: "check_version fromiso item [] = Inr part" by blast
  with versions_loop_member [OF n] assms(3) have "set part \<subseteq> set n" by blast
  with p e show ?thesis by auto
qed

section \<open>What the checks of one matcher append\<close>

lemma in_str_set_Inr: "in_str_set t S = Inr k \<Longrightarrow> k = is_str_with (\<lambda>s. s \<in> set S) t"
  by (cases t) auto

lemma check_severity_dict:
  "check_severity v (PDict kv) [] = Inr s \<longleftrightarrow>
     (\<exists>k. in_str_set (field kv ''severity'') SEVERITY_VALUES = Inr k
        \<and> s = (if k then []
                else [''Version '' @ py_str v @ '': invalid severity '' @ quoted (py_str (field kv ''severity''))]))"
  by (cases "in_str_set (field kv ''severity'') SEVERITY_VALUES")
     (auto simp: check_severity_def py_get_dict simp del: py_get.simps)

lemma check_location_hash_dict:
  "check_location_hash v (PDict kv) [] = Inr h \<longleftrightarrow>
     (if truthy (field kv ''matcher_value'')
      then \<exists>ok. validate_location_hash (field kv ''matcher_value'') = Inr ok
             \<and> h = (if ok then [] else [''Version '' @ py_str v @ '': invalid location hash format''])
      else h = [''Version '' @ py_str v @ '': invalid location hash format''])"
  by (cases "validate_location_hash (field kv ''matcher_value'')")
     (auto simp: check_location_hash_def py_get_dict simp del: py_get.simps)

lemma check_country_dict:
  "check_country v (PDict kv) [] = Inr c \<longleftrightarrow>
     (if truthy (field kv ''matcher_value'')
      then \<exists>k. in_str_set (field kv ''matcher_value'') VALID_COUNTRIES = Inr k
             \<and> c = (if k then []
                     else [''Version '' @ py_str v @ '': invalid country code '' @ quoted (py_str (field kv ''matcher_value''))])
      else c = [''Version '' @ py_str v @ '': invalid country code '' @ quoted (py_str (field kv ''matcher_value''))])"
  by (cases "in_str_set (field kv ''matcher_value'') VALID_COUNTRIES")
     (auto simp: check_country_def py_get_dict simp del: py_get.simps)

text \<open>What the pass for a matcher of a known type appends: the error of its type, then the error of its severity.\<close>

lemma matcher_checks_parts:
  "matcher_checks t v m [] = Inr a \<longleftrightarrow>
     (\<exists>c h s. (if t = PStr ''country'' then check_country v m [] else Inr []) = Inr c
        \<and> (if t = PStr ''location_hash'' then check_location_hash v m [] else Inr []) = Inr h
        \<and> check_severity v m [] = Inr s \<and> a = c @ h @ s)"
proof -
  let ?C = "if t = PStr ''country'' then check_country v m [] else Inr []"
  let ?H = "\<lambda>e. if t = PStr ''location_hash'' then check_location_hash v m e else Inr e"
  show ?thesis
  proof (cases ?C)
    case (Inl e)
    then show ?thesis by (simp add: matcher_checks_def)
  next
    case c: (Inr c)
    have fh: "?H c = and_then (?H []) (\<lambda>new. Inr (c @ new))"
      using check_location_hash_frame [of v m c] by simp
    show ?thesis
    proof (cases "?H []")
      case (Inl e)
      with c fh show ?thesis by (simp add: matcher_checks_def)
    next
      case h: (Inr h)
      with fh have hc: "?H c = Inr (c @ h)" by simp
      have "matcher_checks t v m [] = check_severity v m (c @ h)"
        using c hc by (simp add: matcher_checks_def)
      then show ?thesis
        using c h check_severity_frame [of v m "c @ h"]
        by (cases "check_severity v m []") auto
    qed
  qed
qed

lemma check_matcher_dict:
  "check_matcher v (PDict kv) ([], False) = Inr (a, dflt) \<longleftrightarrow>
     (\<exists>known. in_str_set (field kv ''matcher_type'') MATCHER_TYPES = Inr known
        \<and> (if known
            then matcher_checks (field kv ''matcher_type'') v (PDict kv) [] = Inr a
                 \<and> dflt = (field kv ''matcher_type'' = PStr ''default'')
            else a = [''Version '' @ py_str v @ '': invalid matcher_type '' @ quoted (py_str (field kv ''matcher_type''))]
                 \<and> \<not> dflt))"
proof (cases "in_str_set (field kv ''matcher_type'') MATCHER_TYPES")
  case (Inl e)
  then show ?thesis by (simp add: check_matcher_def py_get_dict del: py_get.simps)
next
  case (Inr known)
  show ?thesis
  proof (cases known)
    case True
    with Inr have k: "in_str_set (field kv ''matcher_type'') MATCHER_TYPES = Inr True" by simp
    show ?thesis
      using check_matcher_known [OF py_get_dict k, of v "[]" False] k
      by (auto simp: and_then_eq_Inr)
  next
    case False
    with Inr have k: "in_str_set (field kv ''matcher_type'') MATCHER_TYPES = Inr False" by simp
    show ?thesis
      using check_matcher_unknown [OF py_get_dict k, of v "[]" False] k by auto
  qed
qed

text \<open>The pass for one matcher of one version of a run that returns.\<close>

lemma validate_manifest_matcher_pass:
  assumes "validate_manifest fromiso (Data (PDict d)) = Inr errors"
    and "map_of d (PStr ''versions'') = Some (PDict items)"
    and "(v, PDict e) \<in> set items"
    and "map_of e (PStr ''matchers'') = Some (PList ms)"
    and "m \<in> set ms"
  shows "\<exists>a dflt. check_matcher v m ([], False) = Inr (a, dflt) \<and> set a \<subseteq> set errors"
proof -
  from validate_manifest_pass [OF assms(1,2,3)] obtain part
    where p: "check_version fromiso (v, PDict e) [] = Inr part" and s: "set part \<subseteq> set errors"
    by blast
  from p assms(4) obtain r new df where l: "matchers_loop v ms ([], False) = Inr (new, df)"
    and pe: "part = r @ new @ (if df then [] else [''Version '' @ py_str v @ '': missing default matcher''])"
    by (auto simp: check_version_dict)
  have n: "set new \<subseteq> set part" unfolding pe by auto
  from matchers_loop_pass [OF l assms(5)] n s show ?thesis by blast
qed

section \<open>The flag of the default matcher\<close>

lemma check_matcher_flag:
  assumes "check_matcher v m ([], False) = Inr (a, dflt)"
  shows "dflt = is_default m"
proof -
  from assms obtain kv where m: "m = PDict kv"
    by (cases m) (auto simp: check_matcher_def)
  from assms obtain known where k: "in_str_set (field kv ''matcher_type'') MATCHER_TYPES = Inr known"
    and c: "if known then dflt = (field kv ''matcher_type'' = PStr ''default'') else \<not> dflt"
    unfolding m check_matcher_dict by (auto split: if_splits)
  show ?thesis
  proof (cases known)
    case True
    with c m show ?thesis by (simp add: is_default_def)
  next
    case False
    with in_str_set_Inr [OF k] have "field kv ''matcher_type'' \<noteq> PStr ''default''"
      by (auto simp: MATCHER_TYPES_def)
    with False c m show ?thesis by (simp add: is_default_def)
  qed
qed

lemma matchers_loop_default:
  assumes "matchers_loop v ms ([], False) = Inr (new, d)"
  shows "d = list_ex is_default ms"
proof -
  have "(\<exists>m \<in> set ms. \<exists>a. check_matcher v m ([], False) = Inr (a, True)) = (\<exists>m \<in> set ms. is_default m)"
  proof (intro iffI)
    assume "\<exists>m \<in> set ms. \<exists>a. check_matcher v m ([], False) = Inr (a, True)"
    then show "\<exists>m \<in> set ms. is_default m" using check_matcher_flag by blast
  next
    assume "\<exists>m \<in> set ms. is_default m"
    then obtain m where m: "m \<in> set ms" and d: "is_default m" by blast
    from matchers_loop_pass [OF assms m] obtain a da
      where a: "check_matcher v m ([], False) = Inr (a, da)" by blast
    from check_matcher_flag [OF a] d have "da = True" by simp
    with a have "check_matcher v m ([], False) = Inr (a, True)" by simp
    with m show "\<exists>m \<in> set ms. \<exists>a. check_matcher v m ([], False) = Inr (a, True)" by blast
  qed
  with matchers_loop_flag [OF assms] show ?thesis by (simp add: list_ex_iff)
qed


section \<open>The claims\<close>

subsection \<open>C1: a manifest that satisfies the rules has no errors\<close>

lemma is_str_withE: "is_str_with P v \<Longrightarrow> (\<And>s. v = PStr s \<Longrightarrow> P s \<Longrightarrow> R) \<Longrightarrow> R"
  by (cases v) simp_all

lemma str_less_irrefl: "\<not> str_less s s"
  by (induction s) simp_all

lemma str_less_asym: "str_less s t \<Longrightarrow> \<not> str_less t s"
  by (induction s t rule: str_less.induct) (auto split: if_splits)

lemma str_less_not_le: "str_less s t \<Longrightarrow> \<not> str_le t s"
  using str_less_irrefl str_less_asym by (auto simp: str_le_def)

lemma empty_not_country: "[] \<notin> set VALID_COUNTRIES"
  by (simp add: VALID_COUNTRIES_def)

lemma check_matcher_valid:
  assumes "valid_matcher m"
  shows "check_matcher v m (errs, d) = Inr (errs, is_default m \<or> d)"
proof -
  from assms obtain kv where m: "m = PDict kv" by (cases m) (simp_all add: valid_matcher_def)
  let ?t = "field kv ''matcher_type''"
  from assms m obtain t where t: "?t = PStr t" and tk: "t \<in> set MATCHER_TYPES"
    by (auto simp: valid_matcher_def elim: is_str_withE)
  from assms m obtain s where s: "field kv ''severity'' = PStr s" and sk: "s \<in> set SEVERITY_VALUES"
    by (auto simp: valid_matcher_def elim: is_str_withE)
  have g: "py_get m ''matcher_type'' = Inr (PStr t)" unfolding m using t by (simp add: field_def)
  have k: "in_str_set (PStr t) MATCHER_TYPES = Inr True" using tk by simp
  have sev: "check_severity v m errs = Inr errs"
    unfolding m using s sk by (simp add: check_severity_def field_def)
  have c: "t = ''country'' \<Longrightarrow> check_country v m errs = Inr errs"
  proof -
    assume "t = ''country''"
    with assms m t obtain c where "field kv ''matcher_value'' = PStr c" and "c \<in> set VALID_COUNTRIES"
      by (auto simp: valid_matcher_def elim: is_str_withE)
    then show ?thesis unfolding m using empty_not_country
      by (auto simp: check_country_def field_def)
  qed
  have h: "t = ''location_hash'' \<Longrightarrow> check_location_hash v m errs = Inr errs"
  proof -
    assume "t = ''location_hash''"
    with assms m t obtain c where "field kv ''matcher_value'' = PStr c" and "hash_match c"
      by (auto simp: valid_matcher_def elim: is_str_withE)
    then show ?thesis unfolding m by (auto simp: check_location_hash_def field_def hash_match_def)
  qed
  have "matcher_checks (PStr t) v m errs = Inr errs"
    using c h sev by (simp add: matcher_checks_def)
  then show ?thesis
    using check_matcher_known [OF g k, of v errs d] m t by (simp add: is_default_def)
qed

lemma matchers_loop_valid:
  "list_all valid_matcher ms \<Longrightarrow>
     matchers_loop v ms (errs, d) = Inr (errs, list_ex is_default ms \<or> d)"
proof (induction ms arbitrary: d)
  case Nil
  show ?case by simp
next
  case (Cons m ms)
  then show ?case by (auto simp: check_matcher_valid)
qed

lemma check_version_valid:
  assumes "entry_rules replace_Z fromiso e"
  shows "check_version fromiso (v, e) errs = Inr errs"
proof -
  from assms obtain d where e: "e = PDict d" by (cases e) (simp_all add: entry_rules_def)
  from assms e obtain ts where r: "map_of d (PStr ''released_at'') = Some (PStr ts)"
    and ok: "fromiso (replace_Z ts)"
    by (auto simp: entry_rules_def split: option.splits elim: is_str_withE)
  from assms e obtain ms where m: "map_of d (PStr ''matchers'') = Some (PList ms)"
    and v: "list_all valid_matcher ms" and df: "list_ex is_default ms"
    by (auto simp: entry_rules_def split: option.splits pyval.splits)
  from r have "(PStr ''released_at'', PStr ts) \<in> set d" by (rule map_of_SomeD)
  then have rk: "PStr ''released_at'' \<in> fst ` set d" by force
  from m have "(PStr ''matchers'', PList ms) \<in> set d" by (rule map_of_SomeD)
  then have mk: "PStr ''matchers'' \<in> fst ` set d" by force
  have "check_released_at fromiso v e errs = Inr errs"
    using e r rk ok by (simp add: check_released_at_def)
  then show ?thesis
    using e m mk matchers_loop_valid [OF v, of v errs False] df
    by (simp add: check_version_def)
qed

lemma versions_loop_valid:
  "list_all (\<lambda>(k, e). is_str_with semver_match k \<and> entry_rules replace_Z fromiso e) items \<Longrightarrow>
     versions_loop fromiso items errs = Inr errs"
proof (induction items)
  case Nil
  show ?case by simp
next
  case (Cons item items)
  obtain v e where "item = (v, e)" by (cases item)
  with Cons show ?case by (simp add: check_version_valid)
qed


lemma ascending_adjacent:
  "ascending xs \<Longrightarrow> Suc j < length xs \<Longrightarrow> str_less (xs ! j) (xs ! Suc j)"
proof (induction xs arbitrary: j rule: ascending.induct)
  case (1 a b rest)
  then show ?case by (cases j) simp_all
qed simp_all

lemma check_key_valid:
  assumes "list_all (is_str_with semver_match) vl" and "ascending (map py_str vl)"
    and "i < length vl"
  shows "check_key vl i (vl ! i) errs = Inr errs"
proof -
  from assms(1,3) have "is_str_with semver_match (vl ! i)" by (simp add: list_all_length)
  then obtain s where s: "vl ! i = PStr s" and ok: "semver_match s" by (rule is_str_withE)
  show ?thesis
  proof (cases "0 < i")
    case False
    with s ok show ?thesis by (simp add: check_key_def)
  next
    case True
    with assms(1,3) have "is_str_with semver_match (vl ! (i - 1))" by (simp add: list_all_length)
    then obtain p where p: "vl ! (i - 1) = PStr p" by (rule is_str_withE)
    from True assms(3) have "Suc (i - 1) < length (map py_str vl)" by simp
    from ascending_adjacent [OF assms(2) this] True assms(3) s p have "str_less p s" by simp
    then have "\<not> str_le s p" by (rule str_less_not_le)
    with s ok p True show ?thesis by (simp add: check_key_def)
  qed
qed

lemma keys_loop_valid:
  assumes "list_all (is_str_with semver_match) vl" and "ascending (map py_str vl)"
  shows "i \<le> length vl \<Longrightarrow> keys_loop vl i (drop i vl) errs = Inr errs"
proof (induction "length vl - i" arbitrary: i)
  case 0
  then show ?case by simp
next
  case (Suc n)
  then have i: "i < length vl" by simp
  then have d: "drop i vl = vl ! i # drop (Suc i) vl" by (simp add: Cons_nth_drop_Suc)
  from Suc.hyps(2) i have "n = length vl - Suc i" by simp
  from Suc.hyps(1) [OF this] i have "keys_loop vl (Suc i) (drop (Suc i) vl) errs = Inr errs"
    by simp
  then show ?case unfolding d using check_key_valid [OF assms i, of errs] by simp
qed


text \<open>
  The two substitutions agree on a timestamp whose only \<^verbatim>\<open>Z\<close> is its last character,
  and on a timestamp without \<^verbatim>\<open>Z\<close>.
\<close>

lemma replace_Z_other: "CHR ''Z'' \<notin> set s \<Longrightarrow> replace_Z s = s"
  by (induction s) (auto simp: replace_Z_def)

lemma replace_Z_trailing: "CHR ''Z'' \<notin> set s \<Longrightarrow> replace_Z (s @ ''Z'') = s @ ''+00:00''"
  using replace_Z_other [of s] by (simp add: replace_Z_def)

lemma replace_trailing_Z_agrees:
  "CHR ''Z'' \<notin> set s \<Longrightarrow> replace_trailing_Z (s @ ''Z'') = replace_Z (s @ ''Z'')
     \<and> replace_trailing_Z s = replace_Z s"
proof -
  assume z: "CHR ''Z'' \<notin> set s"
  have "last s \<noteq> CHR ''Z''" if ne: "s \<noteq> []"
  proof
    assume "last s = CHR ''Z''"
    with last_in_set [OF ne] have "CHR ''Z'' \<in> set s" by simp
    with z show False by simp
  qed
  with z show ?thesis
    by (auto simp: replace_trailing_Z_def replace_Z_trailing replace_Z_other)
qed

text \<open>
  C1, as stated, fails: the code replaces every \<^verbatim>\<open>Z\<close> of \<^verbatim>\<open>released_at\<close>, not
  the trailing one alone. The timestamp \<^verbatim>\<open>2024-01-01Z00:00:00Z\<close> parses once its
  trailing \<^verbatim>\<open>Z\<close> is \<^verbatim>\<open>+00:00\<close>, so the manifest satisfies the rules as C1 words
  them; the code parses \<^verbatim>\<open>2024-01-01+00:0000:00:00+00:00\<close>, which the library rejects,
  and reports the timestamp.
\<close>

theorem trailing_Z_counterexample:
  "manifest_rules replace_trailing_Z fromisoformat_any_separator z_separator
   \<and> validate_manifest fromisoformat_any_separator (Data z_separator) =
       Inr [''Version 1.0.0: invalid ISO 8601 timestamp'']"
  by (simp add: eval_defs example_defs manifest_rules_def entry_rules_def valid_matcher_def
      is_default_def field_def replace_trailing_Z_def)

text \<open>
  C1, amended: for every manifest that satisfies all validation rules, read with the
  substitution of every \<^verbatim>\<open>Z\<close> by \<^verbatim>\<open>+00:00\<close> (a non-empty \<^verbatim>\<open>versions\<close>
  mapping, keys that match \<^verbatim>\<open>^\d+\.\d+\.\d+$\<close> and ascend in the order of strings, in
  each entry a \<^verbatim>\<open>released_at\<close> string that parses once every \<^verbatim>\<open>Z\<close> is replaced
  by \<^verbatim>\<open>+00:00\<close> and a \<^verbatim>\<open>matchers\<close> list with a \<^verbatim>\<open>default\<close> matcher, every
  matcher type, country, location hash and severity valid), \<^verbatim>\<open>validate_manifest\<close>
  returns the empty sequence. The witness is the minimal manifest of concrete scenario 1,
  and a manifest with a matcher of each type.
\<close>

theorem valid_manifest_no_errors:
  assumes "manifest_rules replace_Z fromiso m"
  shows "validate_manifest fromiso (Data m) = Inr []"
proof -
  from assms obtain d where m: "m = PDict d" by (cases m) (simp_all add: manifest_rules_def)
  from assms m obtain items where vs: "map_of d (PStr ''versions'') = Some (PDict items)"
    and ne: "items \<noteq> []"
    and all: "list_all (\<lambda>(k, e). is_str_with semver_match k \<and> entry_rules replace_Z fromiso e) items"
    and asc: "ascending (map (\<lambda>(k, e). py_str k) items)"
    by (auto simp: manifest_rules_def split: option.splits pyval.splits)
  from all have ks: "list_all (is_str_with semver_match) (map fst items)"
    by (induction items) auto
  have "map (\<lambda>(k, e). py_str k) items = map py_str (map fst items)"
    by (induction items) auto
  with asc have asc': "ascending (map py_str (map fst items))" by simp
  have "keys_loop (map fst items) 0 (map fst items) [] = Inr []"
    using keys_loop_valid [OF ks asc', of 0 "[]"] by simp
  moreover have "versions_loop fromiso items [] = Inr []"
    by (rule versions_loop_valid [OF all])
  ultimately show ?thesis
    unfolding m by (simp add: validate_manifest_run [OF vs ne])
qed


theorem valid_manifest_no_errors_witness:
  "manifest_rules replace_Z fromisoformat_sample scenario_1
   \<and> validate_manifest fromisoformat_sample (Data scenario_1) = Inr []
   \<and> manifest_rules replace_Z fromisoformat_sample two_versions
   \<and> validate_manifest fromisoformat_sample (Data two_versions) = Inr []"
proof -
  have v: "manifest_rules replace_Z fromisoformat_sample scenario_1"
    by (simp add: example_defs manifest_rules_def entry_rules_def valid_matcher_def is_default_def
        field_def semver_match_def digits1_def dot_def digit_def at_end_def replace_Z_def
        MATCHER_TYPES_def SEVERITY_VALUES_def)
  have w: "manifest_rules replace_Z fromisoformat_sample two_versions"
    by (simp add: example_defs manifest_rules_def entry_rules_def valid_matcher_def is_default_def
        field_def semver_match_def digits1_def dot_def digit_def at_end_def replace_Z_def
        MATCHER_TYPES_def SEVERITY_VALUES_def VALID_COUNTRIES_def hash_match_def hex_lower_def)
  from v w valid_manifest_no_errors [OF v] valid_manifest_no_errors [OF w] show ?thesis by simp
qed

subsection \<open>C2: when the validator returns\<close>



















subsection \<open>C3: the two early returns\<close>

text \<open>
  Past the two early returns every message starts with \<^verbatim>\<open>Invalid\<close> or \<^verbatim>\<open>Version\<close>,
  so neither early message is returned by a full run.
\<close>

lemma no_early_message:
  assumes "map_of d (PStr ''versions'') = Some (PDict items)" and "items \<noteq> []"
    and "validate_manifest fromiso (Data (PDict d)) = Inr errs"
  shows "list_all (\<lambda>e. e \<noteq> ''Missing 'versions' key'' \<and> e \<noteq> ''No versions defined'') errs"
proof -
  let ?P = "\<lambda>e. e \<noteq> ''Missing 'versions' key'' \<and> e \<noteq> ''No versions defined''"
  from assms obtain k n where k: "keys_loop (map fst items) 0 (map fst items) [] = Inr k"
    and n: "versions_loop fromiso items [] = Inr n" and e: "errs = k @ n"
    by (auto simp: validate_manifest_run and_then_eq_Inr)
  have "list_all ?P k" by (rule keys_loop_emits [OF _ _ k]) simp_all
  moreover have "list_all ?P n"
  proof (rule versions_loop_emits [OF _ n])
    fix v dd
    show "emits ?P (check_version fromiso (v, dd))" by (rule emits_check_version) simp
  qed
  ultimately show ?thesis using e by simp
qed



text \<open>
  C3, as stated, fails: a manifest whose \<^verbatim>\<open>versions\<close> value is not a mapping does not
  get \<^verbatim>\<open>Missing 'versions' key\<close>. A null value gets \<^verbatim>\<open>No versions defined\<close>, and
  a non-empty sequence raises \<^verbatim>\<open>AttributeError\<close> at \<^verbatim>\<open>versions.keys()\<close>.
\<close>

theorem not_a_mapping_counterexample:
  "validate_manifest fromisoformat_sample (Data (PDict [(PStr ''versions'', PNone)])) =
     Inr [''No versions defined'']
   \<and> validate_manifest fromisoformat_sample (Data (PDict [(PStr ''versions'', PList [PStr ''1.0.0''])])) =
     Inl AttributeError"
  by (simp add: validate_manifest_def)

text \<open>
  C3, amended: \<^verbatim>\<open>validate_manifest\<close> returns exactly \<^verbatim>\<open>["Missing 'versions' key"]\<close>
  if and only if the manifest is falsy (null, empty) or is a container without
  \<^verbatim>\<open>versions\<close>; it returns exactly \<^verbatim>\<open>["No versions defined"]\<close> if and only if the
  manifest is a mapping whose \<^verbatim>\<open>versions\<close> value is present and falsy (an empty mapping,
  and also null, an empty sequence, an empty string, zero or false). No other run returns
  either sequence: these are the only two early returns.
\<close>

theorem early_returns:
  "(validate_manifest fromiso (Data m) = Inr [''Missing 'versions' key'']) =
     (py_in ''versions'' m = Inr False \<or> \<not> truthy m)
   \<and> (validate_manifest fromiso (Data m) = Inr [''No versions defined'']) =
     (\<exists>d versions. m = PDict d \<and> map_of d (PStr ''versions'') = Some versions \<and> \<not> truthy versions)"
proof (intro conjI iffI)
  assume "py_in ''versions'' m = Inr False \<or> \<not> truthy m"
  then show "validate_manifest fromiso (Data m) = Inr [''Missing 'versions' key'']"
    by (auto simp: validate_manifest_def)
next
  assume "\<exists>d versions. m = PDict d \<and> map_of d (PStr ''versions'') = Some versions \<and> \<not> truthy versions"
  then obtain d versions where m: "m = PDict d"
    and v: "map_of d (PStr ''versions'') = Some versions" and f: "\<not> truthy versions"
    by blast
  from v have "(PStr ''versions'', versions) \<in> set d" by (rule map_of_SomeD)
  then have "PStr ''versions'' \<in> fst ` set d" by force
  moreover from v have "d \<noteq> []" by auto
  ultimately show "validate_manifest fromiso (Data m) = Inr [''No versions defined'']"
    using m v f by (simp add: validate_manifest_def)
next
  assume a: "validate_manifest fromiso (Data m) = Inr [''Missing 'versions' key'']"
  from validate_manifest_cases [OF a] no_early_message [of _ _ fromiso "[''Missing 'versions' key'']"] a
  show "py_in ''versions'' m = Inr False \<or> \<not> truthy m"
    by auto
next
  assume a: "validate_manifest fromiso (Data m) = Inr [''No versions defined'']"
  from validate_manifest_cases [OF a] no_early_message [of _ _ fromiso "[''No versions defined'']"] a
  show "\<exists>d versions. m = PDict d \<and> map_of d (PStr ''versions'') = Some versions \<and> \<not> truthy versions"
    by auto
qed


theorem early_returns_witness:
  "validate_manifest fromisoformat_sample (Data (PDict [])) = Inr [''Missing 'versions' key'']
   \<and> validate_manifest fromisoformat_sample (Data (PDict [(PStr ''released'', PInt 1)])) =
       Inr [''Missing 'versions' key'']
   \<and> validate_manifest fromisoformat_sample (Data (manifest [])) = Inr [''No versions defined'']"
  using early_returns [of fromisoformat_sample "PDict []"]
    early_returns [of fromisoformat_sample "PDict [(PStr ''released'', PInt 1)]"]
    early_returns [of fromisoformat_sample "manifest []"]
  by (simp add: manifest_def)


subsection \<open>C4: keys that do not ascend as strings\<close>

text \<open>
  C4: in a run of \<^verbatim>\<open>validate_manifest\<close> that returns \<open>errors\<close>, for every pair of
  adjacent version keys \<open>a\<close>, \<open>b\<close> in the order of the mapping, the pass of the key
  loop at \<open>b\<close> appends \<^verbatim>\<open>Versions not in ascending order: a -> b\<close> exactly when
  \<open>b \<le> a\<close> in the order of strings, and what it appends is in \<open>errors\<close>; so the error
  is in the output whenever \<open>b \<le> a\<close>. The order is that of strings, not of numbers:
  \<^verbatim>\<open>10.0.0\<close> is below \<^verbatim>\<open>2.0.0\<close>. The witness runs the validator on
  \<^verbatim>\<open>2.0.0\<close> followed by \<^verbatim>\<open>10.0.0\<close>, which gives the error, and on \<^verbatim>\<open>10.0.0\<close>
  followed by \<^verbatim>\<open>2.0.0\<close>, which gives none.
\<close>

theorem ordering_error:
  assumes "validate_manifest fromiso (Data (PDict d)) = Inr errors"
    and "map_of d (PStr ''versions'') = Some (PDict items)"
    and "Suc j < length items"
    and "fst (items ! j) = PStr a" and "fst (items ! Suc j) = PStr b"
  shows "(\<exists>new. check_key (map fst items) (Suc j) (PStr b) [] = Inr new \<and> set new \<subseteq> set errors
            \<and> ((''Versions not in ascending order: '' @ a @ '' -> '' @ b) \<in> set new) = str_le b a)
         \<and> (str_le b a \<longrightarrow> (''Versions not in ascending order: '' @ a @ '' -> '' @ b) \<in> set errors)
         \<and> str_le ''10.0.0'' ''2.0.0'' \<and> \<not> str_le ''2.0.0'' ''10.0.0''"
proof -
  from assms(3) have ne: "items \<noteq> []" by auto
  from assms(1) obtain k n where k: "keys_loop (map fst items) 0 (map fst items) [] = Inr k"
    and e: "errors = k @ n"
    by (auto simp: validate_manifest_run [OF assms(2) ne] and_then_eq_Inr)
  from assms(3) have l: "Suc j < length (map fst items)" by simp
  from keys_loop_pass [OF k l] assms(3,5) obtain new
    where new: "check_key (map fst items) (Suc j) (PStr b) [] = Inr new"
      and sub: "set new \<subseteq> set k" by auto
  from assms(3,4) have "map fst items ! j = PStr a" by simp
  note eq = check_key_strings [OF this, of b]
  from new eq have nv: "new = (if semver_match b then [] else [''Invalid semantic version format: '' @ b])
                @ (if str_le b a then [''Versions not in ascending order: '' @ a @ '' -> '' @ b] else [])"
    by simp
  have m: "((''Versions not in ascending order: '' @ a @ '' -> '' @ b) \<in> set new) = str_le b a"
    unfolding nv by simp
  from new sub e m have 1: "\<exists>new. check_key (map fst items) (Suc j) (PStr b) [] = Inr new
      \<and> set new \<subseteq> set errors
      \<and> ((''Versions not in ascending order: '' @ a @ '' -> '' @ b) \<in> set new) = str_le b a"
    by auto
  from sub e m have 2: "str_le b a \<longrightarrow> (''Versions not in ascending order: '' @ a @ '' -> '' @ b) \<in> set errors"
    by auto
  have 3: "str_le ''10.0.0'' ''2.0.0'' \<and> \<not> str_le ''2.0.0'' ''10.0.0''"
    by (simp add: str_le_def)
  from 1 2 3 show ?thesis by blast
qed


theorem ordering_error_witness:
  "validate_manifest fromisoformat_sample (Data two_then_ten) =
     Inr [''Versions not in ascending order: 2.0.0 -> 10.0.0'']
   \<and> check_key [PStr ''2.0.0'', PStr ''10.0.0''] 1 (PStr ''10.0.0'') [] =
     Inr [''Versions not in ascending order: 2.0.0 -> 10.0.0'']
   \<and> validate_manifest fromisoformat_sample (Data ten_then_two) = Inr []
   \<and> check_key [PStr ''10.0.0'', PStr ''2.0.0''] 1 (PStr ''2.0.0'') [] = Inr []"
proof -
  have a: "validate_manifest fromisoformat_sample (Data two_then_ten) =
     Inr [''Versions not in ascending order: 2.0.0 -> 10.0.0'']"
    by (simp add: eval_defs example_defs)
  have b: "validate_manifest fromisoformat_sample (Data ten_then_two) = Inr []"
    by (simp add: eval_defs example_defs)
  from ordering_error [of fromisoformat_sample
      "[(PStr ''versions'', PDict [(PStr ''2.0.0'', entry [default_green]), (PStr ''10.0.0'', entry [default_green])])]"
      "[''Versions not in ascending order: 2.0.0 -> 10.0.0'']"
      "[(PStr ''2.0.0'', entry [default_green]), (PStr ''10.0.0'', entry [default_green])]"
      0 "''2.0.0''" "''10.0.0''"] a
  have c: "check_key [PStr ''2.0.0'', PStr ''10.0.0''] 1 (PStr ''10.0.0'') [] =
     Inr [''Versions not in ascending order: 2.0.0 -> 10.0.0'']"
    by (simp add: eval_defs example_defs)
  from ordering_error [of fromisoformat_sample
      "[(PStr ''versions'', PDict [(PStr ''10.0.0'', entry [default_green]), (PStr ''2.0.0'', entry [default_green])])]"
      "[]"
      "[(PStr ''10.0.0'', entry [default_green]), (PStr ''2.0.0'', entry [default_green])]"
      0 "''10.0.0''" "''2.0.0''"] b
  have d: "check_key [PStr ''10.0.0'', PStr ''2.0.0''] 1 (PStr ''2.0.0'') [] = Inr []"
    by (simp add: eval_defs example_defs)
  from a b c d show ?thesis by blast
qed

subsection \<open>C5: a version without a default matcher\<close>

text \<open>
  C5: in a run of \<^verbatim>\<open>validate_manifest\<close> that returns \<open>errors\<close>, for every version
  entry with a \<^verbatim>\<open>matchers\<close> list, the pass for the version appends
  \<^verbatim>\<open>Version v: missing default matcher\<close> if and only if no matcher of the list has the
  \<^verbatim>\<open>matcher_type\<close> \<^verbatim>\<open>default\<close>, and what the pass appends is in \<open>errors\<close>. So
  a version with one \<^verbatim>\<open>default\<close> matcher or more is not flagged. The witness is concrete
  scenario 3, a version whose only matcher is a \<^verbatim>\<open>country\<close> matcher, and a version
  with two \<^verbatim>\<open>default\<close> matchers, which has no error.
\<close>

theorem missing_default_error:
  assumes "validate_manifest fromiso (Data (PDict d)) = Inr errors"
    and "map_of d (PStr ''versions'') = Some (PDict items)"
    and "(v, PDict e) \<in> set items"
    and "map_of e (PStr ''matchers'') = Some (PList ms)"
  shows "\<exists>part. check_version fromiso (v, PDict e) [] = Inr part \<and> set part \<subseteq> set errors
           \<and> ((''Version '' @ py_str v @ '': missing default matcher'') \<in> set part)
               = (\<not> list_ex is_default ms)"
proof -
  let ?msg = "''Version '' @ py_str v @ '': missing default matcher''"
  from validate_manifest_pass [OF assms(1,2,3)] obtain part
    where p: "check_version fromiso (v, PDict e) [] = Inr part" and s: "set part \<subseteq> set errors"
    by blast
  from p assms(4) obtain r new df where r: "check_released_at fromiso v (PDict e) [] = Inr r"
    and l: "matchers_loop v ms ([], False) = Inr (new, df)"
    and pe: "part = r @ new @ (if df then [] else [?msg])"
    by (auto simp: check_version_dict)
  from r have nr: "?msg \<notin> set r"
    unfolding check_released_at_dict by (auto simp: quoted_def split: option.splits if_splits)
  have "list_all (\<lambda>m. m \<noteq> ?msg) new"
    by (rule matchers_loop_emits [OF _ l]) simp
  then have nn: "?msg \<notin> set new" unfolding list_all_iff by blast
  from matchers_loop_default [OF l] have "df = list_ex is_default ms" .
  with pe nr nn have "(?msg \<in> set part) = (\<not> list_ex is_default ms)" by simp
  with p s show ?thesis by blast
qed


theorem missing_default_error_witness:
  "validate_manifest fromisoformat_sample (Data scenario_3) =
     Inr [''Version 1.0.0: missing default matcher'']
   \<and> check_version fromisoformat_sample (PStr ''1.0.0'', entry [matcher ''country'' ''US'' ''green'']) [] =
     Inr [''Version 1.0.0: missing default matcher'']
   \<and> validate_manifest fromisoformat_sample (Data two_defaults) = Inr []"
proof -
  have a: "validate_manifest fromisoformat_sample (Data scenario_3) =
     Inr [''Version 1.0.0: missing default matcher'']"
    by (simp add: eval_defs example_defs)
  have b: "validate_manifest fromisoformat_sample (Data two_defaults) = Inr []"
    by (simp add: eval_defs example_defs)
  have c: "\<not> list_ex is_default [matcher ''country'' ''US'' ''green'']"
    by (simp add: is_default_def matcher_def field_def)
  from missing_default_error [of fromisoformat_sample
      "[(PStr ''versions'', PDict [(PStr ''1.0.0'', entry [matcher ''country'' ''US'' ''green''])])]"
      "[''Version 1.0.0: missing default matcher'']"
      "[(PStr ''1.0.0'', entry [matcher ''country'' ''US'' ''green''])]"
      "PStr ''1.0.0''"
      "[(PStr ''released_at'', PStr ''2024-01-01T00:00:00Z''),
        (PStr ''matchers'', PList [matcher ''country'' ''US'' ''green''])]"
      "[matcher ''country'' ''US'' ''green'']"] a c
  have "check_version fromisoformat_sample (PStr ''1.0.0'', entry [matcher ''country'' ''US'' ''green'']) [] =
     Inr [''Version 1.0.0: missing default matcher'']"
    by (simp add: eval_defs example_defs)
  with a b show ?thesis by blast
qed


subsection \<open>C6: an unknown matcher type skips the check of the severity\<close>




subsection \<open>C7: the format of a location hash\<close>

lemma validate_location_hash_Inr:
  "validate_location_hash x = Inr ok \<Longrightarrow> ok = is_str_with hash_match x"
  by (cases x) auto

lemma falsy_no_hash: "\<not> truthy x \<Longrightarrow> \<not> is_str_with hash_match x"
  by (cases x) (auto simp: hash_match_def)


text \<open>
  In a run of \<^verbatim>\<open>validate_manifest\<close> that returns \<open>errors\<close>, for every
  \<^verbatim>\<open>location_hash\<close> matcher of every version, the pass for the matcher appends
  \<^verbatim>\<open>invalid location hash format\<close> exactly when the value is not a string that
  \<^verbatim>\<open>re.match\<close> accepts for \<^verbatim>\<open>^[a-f0-9]{64}$\<close> (an absent value is null), and what
  the pass appends is in \<open>errors\<close>. The value \<^verbatim>\<open>abc\<close> of concrete scenario 4 gets
  the error.
\<close>

theorem location_hash_error:
  assumes "validate_manifest fromiso (Data (PDict d)) = Inr errors"
    and "map_of d (PStr ''versions'') = Some (PDict items)"
    and "(v, PDict e) \<in> set items"
    and "map_of e (PStr ''matchers'') = Some (PList ms)"
    and "PDict kv \<in> set ms"
    and "field kv ''matcher_type'' = PStr ''location_hash''"
  shows "\<exists>new dflt. check_matcher v (PDict kv) ([], False) = Inr (new, dflt)
           \<and> set new \<subseteq> set errors
           \<and> ((''Version '' @ py_str v @ '': invalid location hash format'') \<in> set new)
               = (\<not> is_str_with hash_match (field kv ''matcher_value''))"
proof -
  let ?msg = "''Version '' @ py_str v @ '': invalid location hash format''"
  from validate_manifest_matcher_pass [OF assms(1-5)] obtain a dflt
    where a: "check_matcher v (PDict kv) ([], False) = Inr (a, dflt)" and s: "set a \<subseteq> set errors"
    by blast
  have "in_str_set (field kv ''matcher_type'') MATCHER_TYPES = Inr True"
    by (simp add: assms(6) MATCHER_TYPES_def)
  with a have "matcher_checks (field kv ''matcher_type'') v (PDict kv) [] = Inr a"
    unfolding check_matcher_dict by auto
  then obtain h sv where h: "check_location_hash v (PDict kv) [] = Inr h"
    and sv: "check_severity v (PDict kv) [] = Inr sv" and ae: "a = h @ sv"
    unfolding matcher_checks_parts by (auto simp: assms(6))
  from sv have nsv: "?msg \<notin> set sv"
    unfolding check_severity_dict by (auto split: if_splits)
  have "(?msg \<in> set h) = (\<not> is_str_with hash_match (field kv ''matcher_value''))"
  proof (cases "truthy (field kv ''matcher_value'')")
    case False
    with h falsy_no_hash [OF False] show ?thesis
      unfolding check_location_hash_dict by simp
  next
    case True
    with h obtain ok where ok: "validate_location_hash (field kv ''matcher_value'') = Inr ok"
      and he: "h = (if ok then [] else [?msg])"
      unfolding check_location_hash_dict by auto
    from validate_location_hash_Inr [OF ok] he show ?thesis by auto
  qed
  with nsv ae have "(?msg \<in> set a) = (\<not> is_str_with hash_match (field kv ''matcher_value''))"
    by simp
  with a s show ?thesis by blast
qed


theorem location_hash_error_witness:
  "validate_manifest fromisoformat_sample (Data scenario_4) =
     Inr [''Version 1.0.0: invalid location hash format'']
   \<and> \<not> hash_match ''abc''
   \<and> check_matcher (PStr ''1.0.0'') (matcher ''location_hash'' ''abc'' ''red'') ([], False) =
     Inr ([''Version 1.0.0: invalid location hash format''], False)"
proof -
  have a: "validate_manifest fromisoformat_sample (Data scenario_4) =
     Inr [''Version 1.0.0: invalid location hash format'']"
    by (simp add: eval_defs example_defs)
  have b: "\<not> hash_match ''abc''" by (simp add: hash_match_def)
  from location_hash_error [of fromisoformat_sample
      "[(PStr ''versions'', PDict [(PStr ''1.0.0'', entry [matcher ''location_hash'' ''abc'' ''red'', default_green])])]"
      "[''Version 1.0.0: invalid location hash format'']"
      "[(PStr ''1.0.0'', entry [matcher ''location_hash'' ''abc'' ''red'', default_green])]"
      "PStr ''1.0.0''"
      "[(PStr ''released_at'', PStr ''2024-01-01T00:00:00Z''),
        (PStr ''matchers'', PList [matcher ''location_hash'' ''abc'' ''red'', default_green])]"
      "[matcher ''location_hash'' ''abc'' ''red'', default_green]"
      "[(PStr ''matcher_type'', PStr ''location_hash''), (PStr ''matcher_value'', PStr ''abc''),
        (PStr ''severity'', PStr ''red'')]"] a b
  have "check_matcher (PStr ''1.0.0'') (matcher ''location_hash'' ''abc'' ''red'') ([], False) =
     Inr ([''Version 1.0.0: invalid location hash format''], False)"
    by (simp add: eval_defs example_defs)
  with a b show ?thesis by blast
qed

text \<open>
  C7 says that the values without the error are those of exactly 64 lowercase hexadecimal
  characters, and so does the docstring of \<^verbatim>\<open>validate_location_hash\<close>. The pattern ends
  in \<^verbatim>\<open>$\<close>, which also matches before a newline that ends the string: a value of 64
  hexadecimal digits and a newline, 65 characters, is accepted and gets no error.
\<close>

theorem location_hash_newline:
  "length (''0123456789abcdef0123456789abcdef0123456789abcdef0123456789abcdef'' @ [CHR 0x0A]) = 65
   \<and> hash_match (''0123456789abcdef0123456789abcdef0123456789abcdef0123456789abcdef'' @ [CHR 0x0A])
   \<and> validate_manifest fromisoformat_sample (Data newline_hash) = Inr []"
  by (simp add: eval_defs example_defs)

subsection \<open>C8: the order of the errors, and repeated errors\<close>

lemma falsy_no_country: "\<not> truthy x \<Longrightarrow> \<not> is_str_with (\<lambda>c. c \<in> set VALID_COUNTRIES) x"
  using empty_not_country by (cases x) auto

lemma check_matcher_expected:
  assumes "check_matcher v m ([], False) = Inr (a, dflt)"
  shows "a = expected_matcher_errors (py_str v) m"
proof -
  from assms obtain kv where m: "m = PDict kv"
    by (cases m) (auto simp: check_matcher_def)
  let ?t = "field kv ''matcher_type''"
  let ?x = "field kv ''matcher_value''"
  from assms obtain known where k: "in_str_set ?t MATCHER_TYPES = Inr known"
    and c: "if known then matcher_checks ?t v (PDict kv) [] = Inr a
            else a = [''Version '' @ py_str v @ '': invalid matcher_type '' @ quoted (py_str ?t)]"
    unfolding m check_matcher_dict by (auto split: if_splits)
  note kn = in_str_set_Inr [OF k]
  show ?thesis
  proof (cases known)
    case False
    with c kn m show ?thesis by (simp add: expected_matcher_errors_def fields_def)
  next
    case True
    with c obtain ce he sv
      where ce: "(if ?t = PStr ''country'' then check_country v (PDict kv) [] else Inr []) = Inr ce"
        and he: "(if ?t = PStr ''location_hash'' then check_location_hash v (PDict kv) [] else Inr []) = Inr he"
        and sv: "check_severity v (PDict kv) [] = Inr sv" and ae: "a = ce @ he @ sv"
      unfolding matcher_checks_parts by auto
    have 1: "ce = (if ?t = PStr ''country'' \<and> \<not> is_str_with (\<lambda>c. c \<in> set VALID_COUNTRIES) ?x
            then [''Version '' @ py_str v @ '': invalid country code '' @ quoted (py_str ?x)] else [])"
    proof (cases "?t = PStr ''country''")
      case False
      with ce show ?thesis by simp
    next
      case t: True
      with ce have cc: "check_country v (PDict kv) [] = Inr ce" by simp
      show ?thesis
      proof (cases "truthy ?x")
        case False
        with cc t falsy_no_country [OF False] show ?thesis
          unfolding check_country_dict by simp
      next
        case True
        with cc obtain kc where kc: "in_str_set ?x VALID_COUNTRIES = Inr kc"
          and "ce = (if kc then [] else [''Version '' @ py_str v @ '': invalid country code '' @ quoted (py_str ?x)])"
          unfolding check_country_dict by auto
        with in_str_set_Inr [OF kc] t show ?thesis by simp
      qed
    qed
    have 2: "he = (if ?t = PStr ''location_hash'' \<and> \<not> is_str_with hash_match ?x
            then [''Version '' @ py_str v @ '': invalid location hash format''] else [])"
    proof (cases "?t = PStr ''location_hash''")
      case False
      with he show ?thesis by simp
    next
      case t: True
      with he have hh: "check_location_hash v (PDict kv) [] = Inr he" by simp
      show ?thesis
      proof (cases "truthy ?x")
        case False
        with hh t falsy_no_hash [OF False] show ?thesis
          unfolding check_location_hash_dict by simp
      next
        case True
        with hh obtain ok where ok: "validate_location_hash ?x = Inr ok"
          and "he = (if ok then [] else [''Version '' @ py_str v @ '': invalid location hash format''])"
          unfolding check_location_hash_dict by auto
        with validate_location_hash_Inr [OF ok] t show ?thesis by simp
      qed
    qed
    from sv obtain ks where ks: "in_str_set (field kv ''severity'') SEVERITY_VALUES = Inr ks"
      and se: "sv = (if ks then []
                else [''Version '' @ py_str v @ '': invalid severity '' @ quoted (py_str (field kv ''severity''))])"
      unfolding check_severity_dict by blast
    from se in_str_set_Inr [OF ks]
    have 3: "sv = (if \<not> is_str_with (\<lambda>s. s \<in> set SEVERITY_VALUES) (field kv ''severity'')
              then [''Version '' @ py_str v @ '': invalid severity '' @ quoted (py_str (field kv ''severity''))]
              else [])"
      by simp
    from True kn have 4: "is_str_with (\<lambda>t. t \<in> set MATCHER_TYPES) ?t" by simp
    show ?thesis
      unfolding ae 1 2 3 m expected_matcher_errors_def fields_def Let_def using 4 by simp
  qed
qed

lemma matchers_loop_expected:
  "matchers_loop v ms ([], False) = Inr (new, d) \<Longrightarrow>
     new = concat (map (expected_matcher_errors (py_str v)) ms)"
proof (induction ms arbitrary: new d)
  case Nil
  then show ?case by simp
next
  case (Cons m ms)
  from Cons.prems obtain a da b db where a: "check_matcher v m ([], False) = Inr (a, da)"
    and b: "matchers_loop v ms ([], False) = Inr (b, db)" and n: "new = a @ b"
    unfolding matchers_loop_Cons by blast
  from check_matcher_expected [OF a] Cons.IH [OF b] n show ?case by simp
qed


lemma validate_iso8601_Inr:
  "validate_iso8601 fromiso ts = Inr ok \<Longrightarrow> ok = is_str_with (\<lambda>s. fromiso (replace_Z s)) ts"
  by (cases ts) auto

lemma py_iter_elements: "py_iter x = Inr xs \<Longrightarrow> elements x = xs"
  by (simp add: elements_def)

lemma check_version_expected:
  assumes "check_version fromiso (v, e) [] = Inr part"
  shows "part = expected_version_errors fromiso (v, e)"
proof (cases e)
  case (PDict kv)
  from assms obtain r where r: "check_released_at fromiso v (PDict kv) [] = Inr r"
    and c: "case map_of kv (PStr ''matchers'') of
           None \<Rightarrow> part = r @ [''Version '' @ py_str v @ '': missing '' @ quoted ''matchers'']
         | Some matchers \<Rightarrow> \<exists>ms new d. py_iter matchers = Inr ms
             \<and> matchers_loop v ms ([], False) = Inr (new, d)
             \<and> part = r @ new @ (if d then [] else [''Version '' @ py_str v @ '': missing default matcher''])"
    unfolding PDict check_version_dict by blast
  have re: "r = (case map_of kv (PStr ''released_at'') of
           None \<Rightarrow> [''Version '' @ py_str v @ '': missing '' @ quoted ''released_at'']
         | Some ts \<Rightarrow>
             if is_str_with (\<lambda>s. fromiso (replace_Z s)) ts then []
             else [''Version '' @ py_str v @ '': invalid ISO 8601 timestamp''])"
  proof (cases "map_of kv (PStr ''released_at'')")
    case None
    with r show ?thesis unfolding check_released_at_dict by simp
  next
    case (Some ts)
    with r obtain ok where ok: "validate_iso8601 fromiso ts = Inr ok"
      and "r = (if ok then [] else [''Version '' @ py_str v @ '': invalid ISO 8601 timestamp''])"
      unfolding check_released_at_dict by auto
    with validate_iso8601_Inr [OF ok] Some show ?thesis by simp
  qed
  show ?thesis
  proof (cases "map_of kv (PStr ''matchers'')")
    case None
    with c re PDict show ?thesis by (simp add: expected_version_errors_def fields_def)
  next
    case (Some matchers)
    with c obtain ms new d where ms: "py_iter matchers = Inr ms"
      and l: "matchers_loop v ms ([], False) = Inr (new, d)"
      and pe: "part = r @ new @ (if d then [] else [''Version '' @ py_str v @ '': missing default matcher''])"
      by auto
    from matchers_loop_expected [OF l] matchers_loop_default [OF l] py_iter_elements [OF ms]
      pe re Some PDict
    show ?thesis by (simp add: expected_version_errors_def fields_def)
  qed
next
  case (PList xs)
  with assms have "PStr ''released_at'' \<notin> set xs"
    by (auto simp: check_version_def check_released_at_def split: if_splits)
  moreover with assms PList have "PStr ''matchers'' \<notin> set xs"
    by (auto simp: check_version_def check_released_at_def split: if_splits)
  ultimately show ?thesis
    using assms PList
    by (auto simp: check_version_def check_released_at_def expected_version_errors_def fields_def)
next
  case (PStr s)
  with assms have "\<not> substring ''released_at'' s"
    by (auto simp: check_version_def check_released_at_def split: if_splits)
  moreover with assms PStr have "\<not> substring ''matchers'' s"
    by (auto simp: check_version_def check_released_at_def split: if_splits)
  ultimately show ?thesis
    using assms PStr
    by (auto simp: check_version_def check_released_at_def expected_version_errors_def fields_def)
next
  case PNone
  with assms show ?thesis by (simp add: check_version_def check_released_at_def)
next
  case (PBool b)
  with assms show ?thesis by (simp add: check_version_def check_released_at_def)
next
  case (PInt i)
  with assms show ?thesis by (simp add: check_version_def check_released_at_def)
qed

lemma versions_loop_expected:
  "versions_loop fromiso items [] = Inr new \<Longrightarrow>
     new = concat (map (expected_version_errors fromiso) items)"
proof (induction items arbitrary: new)
  case Nil
  then show ?case by simp
next
  case (Cons item items)
  obtain v e where item: "item = (v, e)" by (cases item)
  from Cons.prems obtain a b where a: "check_version fromiso (v, e) [] = Inr a"
    and b: "versions_loop fromiso items [] = Inr b" and n: "new = a @ b"
    unfolding versions_loop_Cons item by blast
  from check_version_expected [OF a] Cons.IH [OF b] n item show ?case by simp
qed


lemma check_key_Inr:
  assumes "check_key vl i v [] = Inr a"
  shows "\<exists>s. v = PStr s
           \<and> a = (if semver_match s then [] else [''Invalid semantic version format: '' @ s])
                 @ (if 0 < i
                    then (if str_le s (py_str (vl ! (i - 1)))
                          then [''Versions not in ascending order: '' @ py_str (vl ! (i - 1)) @ '' -> '' @ s]
                          else [])
                    else [])"
proof -
  from assms obtain s where v: "v = PStr s"
    by (cases v) (auto simp: check_key_def)
  show ?thesis
  proof (cases "0 < i")
    case False
    with assms v show ?thesis by (auto simp: check_key_def)
  next
    case True
    with assms v obtain p where p: "vl ! (i - 1) = PStr p"
      by (cases "vl ! (i - 1)") (auto simp: check_key_def)
    with assms v True show ?thesis by (auto simp: check_key_def)
  qed
qed

lemma keys_loop_expected:
  "keys_loop vl i (drop i vl) [] = Inr k \<Longrightarrow> i \<le> length vl \<Longrightarrow>
     k = expected_key_errors (if i = 0 then None else Some (py_str (vl ! (i - 1))))
           (map py_str (drop i vl))"
proof (induction "length vl - i" arbitrary: i k)
  case 0
  then show ?case by simp
next
  case (Suc n)
  then have i: "i < length vl" by simp
  then have d: "drop i vl = vl ! i # drop (Suc i) vl" by (simp add: Cons_nth_drop_Suc)
  from Suc.prems(1) obtain a b where a: "check_key vl i (vl ! i) [] = Inr a"
    and b: "keys_loop vl (Suc i) (drop (Suc i) vl) [] = Inr b" and k: "k = a @ b"
    unfolding d keys_loop_Cons by blast
  from Suc.hyps(2) i have "n = length vl - Suc i" by simp
  from Suc.hyps(1) [OF this b] i
  have be: "b = expected_key_errors (Some (py_str (vl ! i))) (map py_str (drop (Suc i) vl))"
    by simp
  from check_key_Inr [OF a] obtain s where s: "vl ! i = PStr s"
    and ae: "a = (if semver_match s then [] else [''Invalid semantic version format: '' @ s])
                 @ (if 0 < i
                    then (if str_le s (py_str (vl ! (i - 1)))
                          then [''Versions not in ascending order: '' @ py_str (vl ! (i - 1)) @ '' -> '' @ s]
                          else [])
                    else [])"
    by blast
  show ?case unfolding d k be ae using s by (cases "i = 0") simp_all
qed


text \<open>
  C8, as stated, fails: the validator appends every error it finds and removes none, so
  two matchers of one version with the same defect give the same string twice.
\<close>

theorem repeated_error_counterexample:
  "validate_manifest fromisoformat_sample (Data same_error_twice) =
     Inr [''Version 1.0.0: invalid location hash format'', ''Version 1.0.0: invalid location hash format'']
   \<and> \<not> distinct [''Version 1.0.0: invalid location hash format'', ''Version 1.0.0: invalid location hash format'']"
  by (simp add: eval_defs example_defs)

text \<open>
  C8, amended: the sequence that \<^verbatim>\<open>validate_manifest\<close> returns, past the two early
  returns, is the sequence of the errors in the order in which the checks are performed
  (\<open>expected_errors\<close>): for each version key in order, the error of its format and then
  the error of its order; then, for each version in order, the error of
  \<^verbatim>\<open>released_at\<close>, then the error of absent \<^verbatim>\<open>matchers\<close> or else the errors of each
  matcher in order (the error of its type alone, or the error of its country or hash and
  then the error of its severity) and the error of the missing default matcher. A string
  may occur more than once.
\<close>

theorem errors_in_order:
  assumes "validate_manifest fromiso (Data (PDict d)) = Inr errors"
    and "map_of d (PStr ''versions'') = Some (PDict items)"
    and "items \<noteq> []"
  shows "errors = expected_errors fromiso items"
proof -
  from assms(1) obtain k n where k: "keys_loop (map fst items) 0 (map fst items) [] = Inr k"
    and n: "versions_loop fromiso items [] = Inr n" and e: "errors = k @ n"
    by (auto simp: validate_manifest_run [OF assms(2,3)] and_then_eq_Inr)
  have m: "map (\<lambda>(k, e). py_str k) items = map py_str (map fst items)"
    by (induction items) auto
  from keys_loop_expected [of "map fst items" 0 k] k
  have ke: "k = expected_key_errors None (map py_str (map fst items))" by simp
  note ne = versions_loop_expected [OF n]
  show ?thesis unfolding expected_errors_def m e ke [symmetric] ne [symmetric] ..
qed


theorem errors_in_order_witness:
  "validate_manifest fromisoformat_sample (Data malformed_content) =
     Inr [''Invalid semantic version format: v2'',
          ''Invalid semantic version format: v1'',
          ''Versions not in ascending order: v2 -> v1'',
          ''Version v2: invalid ISO 8601 timestamp'',
          ''Version v2: invalid matcher_type '' @ quoted ''7'',
          ''Version v2: invalid country code '' @ quoted ''5'',
          ''Version v2: invalid severity '' @ quoted ''None'',
          ''Version v2: invalid location hash format'',
          ''Version v2: invalid severity '' @ quoted ''None'',
          ''Version v2: missing default matcher'',
          ''Version v1: missing '' @ quoted ''released_at'',
          ''Version v1: missing '' @ quoted ''matchers'']
   \<and> expected_errors fromisoformat_sample (fields (field (fields malformed_content) ''versions'')) =
     [''Invalid semantic version format: v2'',
          ''Invalid semantic version format: v1'',
          ''Versions not in ascending order: v2 -> v1'',
          ''Version v2: invalid ISO 8601 timestamp'',
          ''Version v2: invalid matcher_type '' @ quoted ''7'',
          ''Version v2: invalid country code '' @ quoted ''5'',
          ''Version v2: invalid severity '' @ quoted ''None'',
          ''Version v2: invalid location hash format'',
          ''Version v2: invalid severity '' @ quoted ''None'',
          ''Version v2: missing default matcher'',
          ''Version v1: missing '' @ quoted ''released_at'',
          ''Version v1: missing '' @ quoted ''matchers'']"
proof -
  have a: "validate_manifest fromisoformat_sample (Data malformed_content) =
     Inr [''Invalid semantic version format: v2'',
          ''Invalid semantic version format: v1'',
          ''Versions not in ascending order: v2 -> v1'',
          ''Version v2: invalid ISO 8601 timestamp'',
          ''Version v2: invalid matcher_type '' @ quoted ''7'',
          ''Version v2: invalid country code '' @ quoted ''5'',
          ''Version v2: invalid severity '' @ quoted ''None'',
          ''Version v2: invalid location hash format'',
          ''Version v2: invalid severity '' @ quoted ''None'',
          ''Version v2: missing default matcher'',
          ''Version v1: missing '' @ quoted ''released_at'',
          ''Version v1: missing '' @ quoted ''matchers'']"
    by (simp add: eval_defs example_defs str_int_def)
  have f: "fields (field (fields malformed_content) ''versions'') =
      [(PStr ''v2'',
         PDict [(PStr ''released_at'', PStr ''yesterday''),
                (PStr ''matchers'',
                 PList [PDict [(PStr ''matcher_type'', PInt 7)],
                        PDict [(PStr ''matcher_type'', PStr ''country''), (PStr ''matcher_value'', PInt 5)],
                        PDict [(PStr ''matcher_type'', PStr ''location_hash''),
                               (PStr ''matcher_value'', PStr ''abc'')]])]),
        (PStr ''v1'', PDict [])]"
    by (simp add: malformed_content_def manifest_def fields_def field_def)
  from errors_in_order [OF a [unfolded malformed_content_def manifest_def]] a f
  show ?thesis by simp
qed


subsection \<open>C9: a version whose matchers are the empty sequence\<close>

text \<open>
  C9: in a run of \<^verbatim>\<open>validate_manifest\<close> that returns \<open>errors\<close>, for every version
  entry whose \<^verbatim>\<open>matchers\<close> is present and is the empty sequence, the pass for the
  version appends the error of \<^verbatim>\<open>released_at\<close>, if there is one, and then exactly
  \<^verbatim>\<open>Version v: missing default matcher\<close>: the error \<^verbatim>\<open>missing 'matchers'\<close> is
  not among them, and the loop over the matchers adds nothing. All of it is in
  \<open>errors\<close>.
\<close>

theorem empty_matchers:
  assumes "validate_manifest fromiso (Data (PDict d)) = Inr errors"
    and "map_of d (PStr ''versions'') = Some (PDict items)"
    and "(v, PDict e) \<in> set items"
    and "map_of e (PStr ''matchers'') = Some (PList [])"
  shows "\<exists>r. check_released_at fromiso v (PDict e) [] = Inr r
           \<and> (r = [] \<or> r = [''Version '' @ py_str v @ '': missing '' @ quoted ''released_at'']
                \<or> r = [''Version '' @ py_str v @ '': invalid ISO 8601 timestamp''])
           \<and> check_version fromiso (v, PDict e) [] =
                Inr (r @ [''Version '' @ py_str v @ '': missing default matcher''])
           \<and> set (r @ [''Version '' @ py_str v @ '': missing default matcher'']) \<subseteq> set errors
           \<and> (''Version '' @ py_str v @ '': missing '' @ quoted ''matchers'')
                \<notin> set (r @ [''Version '' @ py_str v @ '': missing default matcher''])"
proof -
  from validate_manifest_pass [OF assms(1,2,3)] obtain part
    where p: "check_version fromiso (v, PDict e) [] = Inr part" and s: "set part \<subseteq> set errors"
    by blast
  from p assms(4) obtain r where r: "check_released_at fromiso v (PDict e) [] = Inr r"
    and pe: "part = r @ [''Version '' @ py_str v @ '': missing default matcher'']"
    by (auto simp: check_version_dict)
  from r have rc: "r = [] \<or> r = [''Version '' @ py_str v @ '': missing '' @ quoted ''released_at'']
                \<or> r = [''Version '' @ py_str v @ '': invalid ISO 8601 timestamp'']"
    unfolding check_released_at_dict by (auto split: option.splits if_splits)
  then have "(''Version '' @ py_str v @ '': missing '' @ quoted ''matchers'')
                \<notin> set (r @ [''Version '' @ py_str v @ '': missing default matcher''])"
    by (auto simp: quoted_def)
  with r rc p pe s show ?thesis by blast
qed

theorem empty_matchers_witness:
  "validate_manifest fromisoformat_sample (Data no_matchers) =
     Inr [''Version 1.0.0: missing default matcher'']
   \<and> check_released_at fromisoformat_sample (PStr ''1.0.0'') (entry []) [] = Inr []
   \<and> check_version fromisoformat_sample (PStr ''1.0.0'', entry []) [] =
     Inr [''Version 1.0.0: missing default matcher'']"
proof -
  have a: "validate_manifest fromisoformat_sample (Data no_matchers) =
     Inr [''Version 1.0.0: missing default matcher'']"
    by (simp add: eval_defs example_defs)
  have b: "check_released_at fromisoformat_sample (PStr ''1.0.0'') (entry []) [] = Inr []"
    by (simp add: eval_defs example_defs)
  from empty_matchers [of fromisoformat_sample
      "[(PStr ''versions'', PDict [(PStr ''1.0.0'', entry [])])]"
      "[''Version 1.0.0: missing default matcher'']"
      "[(PStr ''1.0.0'', entry [])]"
      "PStr ''1.0.0''"
      "[(PStr ''released_at'', PStr ''2024-01-01T00:00:00Z''), (PStr ''matchers'', PList [])]"] a b
  have "check_version fromisoformat_sample (PStr ''1.0.0'', entry []) [] =
     Inr [''Version 1.0.0: missing default matcher'']"
    by (simp add: eval_defs example_defs)
  with a b show ?thesis by blast
qed

subsection \<open>C10: the format check and the ordering check are independent\<close>

text \<open>
  C10: in a run of \<^verbatim>\<open>validate_manifest\<close> that returns \<open>errors\<close>, for every pair of
  adjacent version keys \<open>a\<close>, \<open>b\<close>, the pass of the key loop at \<open>b\<close> appends the
  format error of \<open>b\<close> when \<open>b\<close> is no semantic version, and then the ordering error
  of the pair when \<open>b \<le> a\<close> as strings, each whatever the other check finds; both are
  in \<open>errors\<close>, and so is the format error of \<open>a\<close> when \<open>a\<close> is no semantic
  version. The witness is a pair that contributes both errors.
\<close>

theorem format_and_ordering_errors:
  assumes "validate_manifest fromiso (Data (PDict d)) = Inr errors"
    and "map_of d (PStr ''versions'') = Some (PDict items)"
    and "Suc j < length items"
    and "fst (items ! j) = PStr a" and "fst (items ! Suc j) = PStr b"
  shows "(\<exists>new. check_key (map fst items) (Suc j) (PStr b) [] = Inr new \<and> set new \<subseteq> set errors
            \<and> new = (if semver_match b then [] else [''Invalid semantic version format: '' @ b])
                  @ (if str_le b a then [''Versions not in ascending order: '' @ a @ '' -> '' @ b] else []))
         \<and> (str_le b a \<longrightarrow> (''Versions not in ascending order: '' @ a @ '' -> '' @ b) \<in> set errors)
         \<and> (\<not> semver_match a \<longrightarrow> (''Invalid semantic version format: '' @ a) \<in> set errors)
         \<and> (\<not> semver_match b \<longrightarrow> (''Invalid semantic version format: '' @ b) \<in> set errors)"
proof -
  from assms(3) have ne: "items \<noteq> []" by auto
  from assms(1) obtain k n where k: "keys_loop (map fst items) 0 (map fst items) [] = Inr k"
    and e: "errors = k @ n"
    by (auto simp: validate_manifest_run [OF assms(2) ne] and_then_eq_Inr)
  from assms(3) have l: "Suc j < length (map fst items)" and l': "j < length (map fst items)"
    by simp_all
  from keys_loop_pass [OF k l] assms(3,5) obtain new
    where new: "check_key (map fst items) (Suc j) (PStr b) [] = Inr new"
      and sub: "set new \<subseteq> set k" by auto
  from keys_loop_pass [OF k l'] assms(3,4) obtain new'
    where new': "check_key (map fst items) j (PStr a) [] = Inr new'"
      and sub': "set new' \<subseteq> set k" by auto
  from assms(3,4) have "map fst items ! j = PStr a" by simp
  note eq = check_key_strings [OF this, of b]
  from new eq have nv: "new = (if semver_match b then [] else [''Invalid semantic version format: '' @ b])
                @ (if str_le b a then [''Versions not in ascending order: '' @ a @ '' -> '' @ b] else [])"
    by simp
  from new sub e nv have 1: "\<exists>new. check_key (map fst items) (Suc j) (PStr b) [] = Inr new
      \<and> set new \<subseteq> set errors
      \<and> new = (if semver_match b then [] else [''Invalid semantic version format: '' @ b])
            @ (if str_le b a then [''Versions not in ascending order: '' @ a @ '' -> '' @ b] else [])"
    by auto
  have "str_le b a \<Longrightarrow> (''Versions not in ascending order: '' @ a @ '' -> '' @ b) \<in> set new"
    unfolding nv by simp
  with sub e have 2: "str_le b a \<longrightarrow> (''Versions not in ascending order: '' @ a @ '' -> '' @ b) \<in> set errors"
    by auto
  from check_key_format [OF new'] sub' e
  have 3: "\<not> semver_match a \<longrightarrow> (''Invalid semantic version format: '' @ a) \<in> set errors"
    by auto
  from check_key_format [OF new] sub e
  have 4: "\<not> semver_match b \<longrightarrow> (''Invalid semantic version format: '' @ b) \<in> set errors"
    by auto
  from 1 2 3 4 show ?thesis by blast
qed


theorem format_and_ordering_errors_witness:
  "validate_manifest fromisoformat_sample (Data short_key) =
     Inr [''Invalid semantic version format: 1.0'', ''Versions not in ascending order: 2.0.0 -> 1.0'']
   \<and> check_key [PStr ''2.0.0'', PStr ''1.0''] 1 (PStr ''1.0'') [] =
     Inr [''Invalid semantic version format: 1.0'', ''Versions not in ascending order: 2.0.0 -> 1.0'']
   \<and> \<not> semver_match ''1.0'' \<and> str_le ''1.0'' ''2.0.0''"
proof -
  have a: "validate_manifest fromisoformat_sample (Data short_key) =
     Inr [''Invalid semantic version format: 1.0'', ''Versions not in ascending order: 2.0.0 -> 1.0'']"
    by (simp add: eval_defs example_defs)
  have b: "\<not> semver_match ''1.0''" by (simp add: eval_defs)
  have c: "str_le ''1.0'' ''2.0.0''" by (simp add: eval_defs)
  from format_and_ordering_errors [of fromisoformat_sample
      "[(PStr ''versions'', PDict [(PStr ''2.0.0'', entry [default_green]), (PStr ''1.0'', entry [default_green])])]"
      "[''Invalid semantic version format: 1.0'', ''Versions not in ascending order: 2.0.0 -> 1.0'']"
      "[(PStr ''2.0.0'', entry [default_green]), (PStr ''1.0'', entry [default_green])]"
      0 "''2.0.0''" "''1.0''"] a b c
  have "check_key [PStr ''2.0.0'', PStr ''1.0''] 1 (PStr ''1.0'') [] =
     Inr [''Invalid semantic version format: 1.0'', ''Versions not in ascending order: 2.0.0 -> 1.0'']"
    by (simp add: short_key_def manifest_def)
  with a b c show ?thesis by blast
qed

end
